theory Spec2Isabelle
  imports Main "HOL-Library.Word"
begin

section \<open>Machine model\<close>

text \<open>
  The program is C on a 64-bit platform.  Pointers and \<open>size_t\<close> fields are natural
  numbers below \<open>2 ^ 64\<close>; wherever the C arithmetic can wrap, the reduction modulo
  \<open>2 ^ 64\<close> is written out.  The null pointer is \<open>0\<close>.  Bytes are \<open>char\<close> (the buffer is
  a \<open>char *\<close> in the source).  Scalars that travel over the wire are \<open>64 word\<close>
  (\<open>size_t\<close>), the C type \<open>int\<close> is \<open>32 word\<close>.

  A call that does not return normally is a \<open>fault\<close>: \<open>Abort\<close> is \<open>dief\<close> or \<open>abort()\<close>,
  \<open>Hang\<close> is a loop that never exits, \<open>OutOfBounds\<close> is an access outside the object a
  pointer refers to (undefined behaviour in C).
\<close>

datatype fault = Abort | Hang | OutOfBounds

definition rbind :: "fault + 'a \<Rightarrow> ('a \<Rightarrow> fault + 'b) \<Rightarrow> fault + 'b" where
  "rbind r f = (case r of Inl e \<Rightarrow> Inl e | Inr x \<Rightarrow> f x)"

text \<open>
  The C library, as far as the program uses it: \<open>realloc_addr p n\<close> is the address
  \<open>realloc(p, n)\<close> returns (\<open>0\<close> when it fails), \<open>uninit i\<close> is the value byte \<open>i\<close> of a
  block or array holds before the program has written it.
\<close>

record libc =
  realloc_addr :: "nat \<Rightarrow> nat \<Rightarrow> nat"
  uninit :: "nat \<Rightarrow> char"

text \<open>\<open>p - q\<close> on pointers, converted to \<open>size_t\<close>; \<open>p + d\<close> on a pointer.\<close>

definition ptr_diff :: "nat \<Rightarrow> nat \<Rightarrow> nat" where
  "ptr_diff p q = (p + 2 ^ 64 - q) mod 2 ^ 64"

definition ptr_add :: "nat \<Rightarrow> nat \<Rightarrow> nat" where
  "ptr_add p d = (p + d) mod 2 ^ 64"

text \<open>The object representation of a \<open>size_t\<close> (eight bytes, little endian) and back.\<close>

primrec le_bytes :: "nat \<Rightarrow> nat \<Rightarrow> char list" where
  "le_bytes 0 v = []"
| "le_bytes (Suc k) v = char_of v # le_bytes k (v div 256)"

primrec le_val :: "char list \<Rightarrow> nat" where
  "le_val [] = 0"
| "le_val (c # cs) = of_char c + 256 * le_val cs"

definition size_t_bytes :: "64 word \<Rightarrow> char list" where
  "size_t_bytes v = le_bytes 8 (unat v)"

definition size_t_value :: "char list \<Rightarrow> 64 word" where
  "size_t_value cs = of_nat (le_val cs)"

text \<open>\<open>strlen\<close>: a C string ends at its first NUL.\<close>

definition c_str :: "string \<Rightarrow> string" where
  "c_str s = takeWhile (\<lambda>c. c \<noteq> CHR 0x00) s"

section \<open>The expanding buffer\<close>

text \<open>
  \<open>struct expbuf_t\<close>.  The four fields \<open>buf\<close>, \<open>start\<close>, \<open>end\<close>, \<open>capacity\<close> are those of the
  source; \<open>mem\<close> is the content of the heap block \<open>buf\<close> points to
  (byte \<open>i\<close> of \<open>mem\<close> is the byte at address \<open>buf + i\<close>).
\<close>

record expbuf =
  buf :: nat
  start :: nat
  end' :: nat
  capacity :: nat
  mem :: "char list"

text \<open>\<open>struct expbuf_t buf = {}\<close>, and what \<open>memset(buf, 0, sizeof(*buf))\<close> leaves.\<close>

definition expbuf_zero :: expbuf where
  "expbuf_zero = \<lparr>buf = 0, start = 0, end' = 0, capacity = 0, mem = []\<rparr>"

text \<open>Reading \<open>n\<close> bytes at pointer \<open>p\<close>, and \<open>memcpy(p, src, length src)\<close>, inside the block.\<close>

definition load :: "expbuf \<Rightarrow> nat \<Rightarrow> nat \<Rightarrow> char list" where
  "load b p n = take n (drop (ptr_diff p (buf b)) (mem b))"

definition store :: "expbuf \<Rightarrow> nat \<Rightarrow> char list \<Rightarrow> fault + expbuf" where
  "store b p src =
     (let off = ptr_diff p (buf b) in
      if off + length src \<le> length (mem b)
      then Inr (b\<lparr>mem := take off (mem b) @ src @ drop (off + length src) (mem b)\<rparr>)
      else Inl OutOfBounds)"

definition expbuf_size :: "expbuf \<Rightarrow> nat" where
  "expbuf_size b = ptr_diff (end' b) (start b)"

text \<open>The live payload: the bytes of \<open>[start, end)\<close>.\<close>

definition live :: "expbuf \<Rightarrow> char list" where
  "live b = load b (start b) (expbuf_size b)"

text \<open>\<open>OPENSSL_cleanse(p, n)\<close> on the block content \<open>m\<close>: the first \<open>n\<close> bytes become zero.\<close>

definition OPENSSL_cleanse :: "char list \<Rightarrow> nat \<Rightarrow> char list" where
  "OPENSSL_cleanse m n = replicate (min n (length m)) (CHR 0x00) @ drop n m"

text \<open>
  \<open>expbuf_dispose\<close> returns the block it hands to \<open>free\<close>, with the content the block has
  at that moment (\<open>None\<close> for \<open>free(NULL)\<close>), and the record after the \<open>memset\<close>.
\<close>

definition expbuf_dispose :: "expbuf \<Rightarrow> char list option \<times> expbuf" where
  "expbuf_dispose b =
     (let m = (if capacity b \<noteq> 0 then OPENSSL_cleanse (mem b) (capacity b) else mem b);
          released = (if buf b = 0 then None else Some m)
      in (released, expbuf_zero))"

text \<open>
  The loop \<open>while (buf + capacity - end < extra) capacity *= 2\<close>, with fuel.  Sixty-five
  doublings turn every 64-bit capacity into 0, which doubling leaves at 0: a loop that
  has not exited by then never exits.
\<close>

primrec grow_capacity :: "nat \<Rightarrow> nat \<Rightarrow> nat \<Rightarrow> nat \<Rightarrow> nat \<Rightarrow> nat option" where
  "grow_capacity 0 bufp endp extra cap = None"
| "grow_capacity (Suc fuel) bufp endp extra cap =
     (if ptr_diff (bufp + cap) endp < extra
      then grow_capacity fuel bufp endp extra (cap * 2 mod 2 ^ 64)
      else Some cap)"

text \<open>
  \<open>expbuf_reserve\<close> returns the block that \<open>realloc\<close> releases, with the content the block
  has at that moment, and the record.  When \<open>realloc\<close> returns another address than the
  one it was given, it has copied the bytes to the new block and released the old block
  as it is; nothing is released when \<open>expbuf_reserve\<close> returns early, when the block is
  extended in place, or when there was no block (\<open>realloc(NULL, n)\<close>).
\<close>

definition expbuf_reserve :: "libc \<Rightarrow> expbuf \<Rightarrow> nat \<Rightarrow> fault + (char list option \<times> expbuf)" where
  "expbuf_reserve lc b extra =
     (if extra \<le> ptr_diff (buf b + capacity b) (end' b) then Inr (None, b)
      else
        case grow_capacity 65 (buf b) (end' b) extra
               (if capacity b = 0 then 4096 else capacity b) of
          None \<Rightarrow> Inl Hang
        | Some cap \<Rightarrow>
            (let n = realloc_addr lc (buf b) cap in
             if n = 0 then Inl Abort
             else Inr (if buf b \<noteq> 0 \<and> n \<noteq> buf b then Some (mem b) else None,
                       \<lparr>buf = n,
                        start = ptr_add (start b) (ptr_diff n (buf b)),
                        end' = ptr_add (end' b) (ptr_diff n (buf b)),
                        capacity = cap,
                        mem = take cap (mem b) @ map (uninit lc) [length (mem b)..<cap]\<rparr>)))"

text \<open>
  The push functions return the record.  The block that \<open>expbuf_reserve\<close> releases inside
  a push is not part of their result: what is proved about released blocks is proved of
  \<open>expbuf_reserve\<close>.
\<close>

definition expbuf_push_num :: "libc \<Rightarrow> expbuf \<Rightarrow> 64 word \<Rightarrow> fault + expbuf" where
  "expbuf_push_num lc b v =
     rbind (expbuf_reserve lc b 8) (\<lambda>(released, b).
     rbind (store b (end' b) (size_t_bytes v)) (\<lambda>b.
     Inr (b\<lparr>end' := ptr_add (end' b) 8\<rparr>)))"

definition expbuf_push_str :: "libc \<Rightarrow> expbuf \<Rightarrow> string \<Rightarrow> fault + expbuf" where
  "expbuf_push_str lc b s =
     (let l = length (c_str s) + 1 in
      rbind (expbuf_reserve lc b l) (\<lambda>(released, b).
      rbind (store b (end' b) (c_str s @ [CHR 0x00])) (\<lambda>b.
      Inr (b\<lparr>end' := ptr_add (end' b) l\<rparr>))))"

text \<open>
  \<open>expbuf_push_bytes(buf, p, l)\<close>: \<open>p\<close> is the object the pointer refers to, \<open>l\<close> the count.
  Copying more than the object holds reads outside it.
\<close>

definition expbuf_push_bytes :: "libc \<Rightarrow> expbuf \<Rightarrow> char list \<Rightarrow> 64 word \<Rightarrow> fault + expbuf" where
  "expbuf_push_bytes lc b p l =
     rbind (expbuf_push_num lc b l) (\<lambda>b.
     rbind (expbuf_reserve lc b (unat l)) (\<lambda>(released, b).
     if length p < unat l then Inl OutOfBounds
     else
     rbind (store b (end' b) (take (unat l) p)) (\<lambda>b.
     Inr (b\<lparr>end' := ptr_add (end' b) (unat l)\<rparr>))))"

text \<open>
  The shift functions return what the C function returns (\<open>None\<close> for \<open>-1\<close> or \<open>NULL\<close>)
  together with the buffer as the call leaves it.
\<close>

definition expbuf_shift_num :: "expbuf \<Rightarrow> 64 word option \<times> expbuf" where
  "expbuf_shift_num b =
     (if expbuf_size b < 8 then (None, b)
      else (Some (size_t_value (load b (start b) 8)), b\<lparr>start := ptr_add (start b) 8\<rparr>))"

definition expbuf_shift_str :: "expbuf \<Rightarrow> string option \<times> expbuf" where
  "expbuf_shift_str b =
     (let region = load b (start b) (expbuf_size b) in
      if CHR 0x00 \<notin> set region then (None, b)
      else (Some (c_str region),
            b\<lparr>start := ptr_add (ptr_add (start b) (length (c_str region))) 1\<rparr>))"

text \<open>\<open>expbuf_shift_bytes\<close> returns the bytes its result points to, and \<open>*l\<close>.\<close>

definition expbuf_shift_bytes :: "expbuf \<Rightarrow> (char list \<times> 64 word) option \<times> expbuf" where
  "expbuf_shift_bytes b =
     (case expbuf_shift_num b of
        (None, b) \<Rightarrow> (None, b)
      | (Some l, b) \<Rightarrow>
          if expbuf_size b < unat l then (None, b)
          else (Some (load b (start b) (unat l), l), b\<lparr>start := ptr_add (start b) (unat l)\<rparr>))"

text \<open>
  Well-formed buffers: the order of the three pointers inside the block, a block that
  lies in the address space, and a capacity that is 0 or a power of two (it starts at
  4096 and is only ever doubled).
\<close>

definition pow2_or_0 :: "nat \<Rightarrow> bool" where
  "pow2_or_0 c \<longleftrightarrow> c = 0 \<or> (\<exists>k\<in>{..63}. c = 2 ^ k)"

definition expbuf_wf :: "expbuf \<Rightarrow> bool" where
  "expbuf_wf b \<longleftrightarrow>
     buf b \<le> start b \<and> start b \<le> end' b \<and> end' b \<le> buf b + capacity b \<and>
     buf b + capacity b < 2 ^ 64 \<and> length (mem b) = capacity b \<and>
     pow2_or_0 (capacity b) \<and> (buf b = 0 \<longleftrightarrow> capacity b = 0)"

section \<open>Framed I/O\<close>

text \<open>
  \<open>expbuf_write\<close> hands the descriptor the size of the payload, then the payload;
  \<open>frame\<close> is that byte sequence.  \<open>expbuf_read lc b input\<close> reads from a descriptor
  that delivers \<open>input\<close> and then end of file; it returns the C return value, the
  buffer and the input left unread.
\<close>

definition frame :: "expbuf \<Rightarrow> char list" where
  "frame b = size_t_bytes (of_nat (expbuf_size b)) @ load b (start b) (expbuf_size b)"

definition expbuf_read :: "libc \<Rightarrow> expbuf \<Rightarrow> char list \<Rightarrow> fault + (int \<times> expbuf \<times> char list)" where
  "expbuf_read lc b input =
     (if length input < 8 then Inr (-1, b, [])
      else
        let sz = size_t_value (take 8 input); rest = drop 8 input in
        rbind (expbuf_reserve lc b (unat sz)) (\<lambda>(released, b).
        if length rest < unat sz
        then rbind (store b (end' b) rest) (\<lambda>b. Inr (-1, b, []))
        else rbind (store b (end' b) (take (unat sz) rest)) (\<lambda>b.
             Inr (0, b\<lparr>end' := ptr_add (end' b) (unat sz)\<rparr>, drop (unat sz) rest))))"

section \<open>The environment\<close>

text \<open>
  The parent-side key object \<open>create_pkey\<close> builds: the handle and the two hex strings.
\<close>

record pkey =
  exdata_key_index :: "64 word"
  rsa_e :: string
  rsa_n :: string

text \<open>
  What the program takes from outside this file.  \<open>ERRBUF_SIZE\<close> is the macro
  \<open>OPENSSL_PRIVSEP_ERRBUF_SIZE\<close> of the header.  An \<open>RSA *\<close> is an address, \<open>0\<close> is \<open>NULL\<close>.
  The two RSA primitives take \<open>flen\<close>, the bytes at \<open>from\<close>, the key and the padding, and
  give their return value and the bytes they write at \<open>to\<close>.  \<open>RSA_sign\<close> takes \<open>type\<close>,
  the bytes at \<open>m\<close>, \<open>m_len\<close> and the key, and gives its return value, the bytes it
  writes at \<open>sigret\<close> and the value it leaves in \<open>siglen\<close>.  \<open>fopen\<close> gives \<open>errno\<close> or
  the file, \<open>strerror_r e n\<close> the text it leaves in a buffer of \<open>n\<close> bytes.
  \<open>BN_bn2hex_e\<close> and \<open>BN_bn2hex_n\<close> are \<open>BN_bn2hex\<close> of \<open>rsa->e\<close> and \<open>rsa->n\<close> (\<open>None\<close> for
  \<open>NULL\<close>); \<open>BN_hex2bn\<close> is the return value of that function; \<open>malloc_addr\<close> is the
  address \<open>malloc\<close> returns; \<open>connects\<close> says whether \<open>get_thread_data\<close> obtains a
  connection to the daemon.
\<close>

record world =
  c_lib :: libc
  ERRBUF_SIZE :: nat
  malloc_addr :: "nat \<Rightarrow> nat"
  connects :: bool
  fopen :: "string \<Rightarrow> nat + char list"
  strerror_r :: "nat \<Rightarrow> nat \<Rightarrow> string"
  PEM_read_RSAPrivateKey :: "char list \<Rightarrow> nat"
  BN_bn2hex_e :: "nat \<Rightarrow> string option"
  BN_bn2hex_n :: "nat \<Rightarrow> string option"
  BN_hex2bn :: "string \<Rightarrow> nat"
  RSA_private_encrypt :: "32 word \<Rightarrow> char list \<Rightarrow> nat \<Rightarrow> 32 word \<Rightarrow> 32 word \<times> char list"
  RSA_private_decrypt :: "32 word \<Rightarrow> char list \<Rightarrow> nat \<Rightarrow> 32 word \<Rightarrow> 32 word \<times> char list"
  RSA_sign :: "32 word \<Rightarrow> char list \<Rightarrow> 32 word \<Rightarrow> nat \<Rightarrow> 32 word \<times> char list \<times> 32 word"
  SSL_CTX_use_PrivateKey :: "nat \<Rightarrow> pkey \<Rightarrow> 32 word"

text \<open>\<open>snprintf(buf, n, "%s", s)\<close>: the string left in \<open>buf\<close>.\<close>

definition snprintf_s :: "nat \<Rightarrow> string \<Rightarrow> string" where
  "snprintf_s n s = take (n - 1) (c_str s)"

section \<open>The key registry of the daemon\<close>

text \<open>
  \<open>daemon_rsa_keys\<close>: \<open>size\<close>, the pointer \<open>keys\<close>, and in \<open>keys_mem\<close> the slots of the table
  \<open>keys\<close> points to.  The mutex is not modelled: the calls are taken one at a time.
\<close>

record daemon_rsa_keys =
  size' :: nat
  keys :: nat
  keys_mem :: "nat list"

definition daemon_rsa_keys_init :: daemon_rsa_keys where
  "daemon_rsa_keys_init = \<lparr>size' = 0, keys = 0, keys_mem = []\<rparr>"

text \<open>
  \<open>daemon_get_rsa\<close> reads \<open>keys[key_index]\<close> without comparing \<open>key_index\<close> with \<open>size\<close>.
\<close>

definition daemon_get_rsa :: "daemon_rsa_keys \<Rightarrow> 64 word \<Rightarrow> fault + nat" where
  "daemon_get_rsa reg key_index =
     (if unat key_index < length (keys_mem reg) then Inr (keys_mem reg ! unat key_index)
      else Inl OutOfBounds)"

definition daemon_set_rsa :: "libc \<Rightarrow> daemon_rsa_keys \<Rightarrow> nat \<Rightarrow> fault + (daemon_rsa_keys \<times> 64 word)" where
  "daemon_set_rsa lc reg rsa =
     (let n = realloc_addr lc (keys reg) (8 * (size' reg + 1) mod 2 ^ 64) in
      if n = 0 then Inl Abort
      else
        let index = size' reg in
        Inr (\<lparr>size' = (size' reg + 1) mod 2 ^ 64, keys = n,
              keys_mem = take index (keys_mem reg) @ [rsa]\<rparr>, of_nat index))"

section \<open>Command handlers of the daemon\<close>

text \<open>
  The handlers return the C return value and the buffer.  \<open>to\<close> is the 4096-byte array
  on the stack: what the primitive wrote, then bytes never written.
\<close>

definition priv_encdec_stub ::
  "world \<Rightarrow> string \<Rightarrow> (32 word \<Rightarrow> char list \<Rightarrow> nat \<Rightarrow> 32 word \<Rightarrow> 32 word \<times> char list) \<Rightarrow>
   daemon_rsa_keys \<Rightarrow> expbuf \<Rightarrow> fault + (int \<times> expbuf)" where
  "priv_encdec_stub w name func reg b =
     (case expbuf_shift_bytes b of
        (None, b) \<Rightarrow> Inr (-1, b)
      | (Some (from, flen), b) \<Rightarrow>
     (case expbuf_shift_num b of
        (None, b) \<Rightarrow> Inr (-1, b)
      | (Some key_index, b) \<Rightarrow>
     (case expbuf_shift_num b of
        (None, b) \<Rightarrow> Inr (-1, b)
      | (Some padding, b) \<Rightarrow>
     rbind (daemon_get_rsa reg key_index) (\<lambda>rsa.
     if rsa = 0 then Inr (-1, b)
     else
       case RSA_private_encrypt w (ucast flen) from rsa (ucast padding) of (ret, out) \<Rightarrow>
       if 4096 < length out then Inl OutOfBounds
       else
         let to = out @ map (uninit (c_lib w)) [length out..<4096];
             b = snd (expbuf_dispose b)
         in
         rbind (expbuf_push_num (c_lib w) b (scast ret)) (\<lambda>b.
         rbind (expbuf_push_bytes (c_lib w) b to (if ret = 1 then flen else 0)) (\<lambda>b.
         Inr (0, b)))))))"

definition priv_enc_stub :: "world \<Rightarrow> daemon_rsa_keys \<Rightarrow> expbuf \<Rightarrow> fault + (int \<times> expbuf)" where
  "priv_enc_stub w reg b = priv_encdec_stub w ''priv_enc_stub'' (RSA_private_encrypt w) reg b"

definition priv_dec_stub :: "world \<Rightarrow> daemon_rsa_keys \<Rightarrow> expbuf \<Rightarrow> fault + (int \<times> expbuf)" where
  "priv_dec_stub w reg b = priv_encdec_stub w ''priv_dec_stub'' (RSA_private_decrypt w) reg b"

text \<open>
  \<open>sign_stub\<close>; \<open>sigret\<close> is the 4096-byte array on the stack, \<open>siglen\<close> starts at 0.
\<close>

definition sign_stub :: "world \<Rightarrow> daemon_rsa_keys \<Rightarrow> expbuf \<Rightarrow> fault + (int \<times> expbuf)" where
  "sign_stub w reg b =
     (case expbuf_shift_num b of
        (None, b) \<Rightarrow> Inr (-1, b)
      | (Some type, b) \<Rightarrow>
     (case expbuf_shift_bytes b of
        (None, b) \<Rightarrow> Inr (-1, b)
      | (Some (m, m_len), b) \<Rightarrow>
     (case expbuf_shift_num b of
        (None, b) \<Rightarrow> Inr (-1, b)
      | (Some key_index, b) \<Rightarrow>
     rbind (daemon_get_rsa reg key_index) (\<lambda>rsa.
     if rsa = 0 then Inr (-1, b)
     else
       case RSA_sign w (ucast type) m (ucast m_len) rsa of (ret, out, siglen) \<Rightarrow>
       if 4096 < length out then Inl OutOfBounds
       else
         let sigret = out @ map (uninit (c_lib w)) [length out..<4096];
             b = snd (expbuf_dispose b)
         in
         rbind (expbuf_push_num (c_lib w) b (scast ret)) (\<lambda>b.
         rbind (expbuf_push_bytes (c_lib w) b sigret (if ret = 1 then ucast siglen else 0)) (\<lambda>b.
         Inr (0, b)))))))"

text \<open>The part of \<open>load_key_stub\<close> from the label \<open>Respond\<close> on.\<close>

definition load_key_respond ::
  "libc \<Rightarrow> expbuf \<Rightarrow> nat \<Rightarrow> 64 word \<Rightarrow> string option \<Rightarrow> string option \<Rightarrow> string \<Rightarrow>
   fault + (int \<times> expbuf)" where
  "load_key_respond lc b rsa key_index estr nstr errbuf =
     (let b = snd (expbuf_dispose b) in
      rbind (expbuf_push_num lc b (if rsa \<noteq> 0 then 1 else 0)) (\<lambda>b.
      rbind (expbuf_push_num lc b key_index) (\<lambda>b.
      rbind (expbuf_push_str lc b (case estr of Some s \<Rightarrow> s | None \<Rightarrow> [])) (\<lambda>b.
      rbind (expbuf_push_str lc b (case nstr of Some s \<Rightarrow> s | None \<Rightarrow> [])) (\<lambda>b.
      rbind (expbuf_push_str lc b errbuf) (\<lambda>b.
      Inr (0, b)))))))"

definition load_key_stub ::
  "world \<Rightarrow> daemon_rsa_keys \<Rightarrow> expbuf \<Rightarrow> fault + (int \<times> daemon_rsa_keys \<times> expbuf)" where
  "load_key_stub w reg b =
     (case expbuf_shift_str b of
        (None, b) \<Rightarrow> Inr (-1, reg, b)
      | (Some fn, b) \<Rightarrow>
          (case fopen w fn of
             Inl errno \<Rightarrow>
               rbind (load_key_respond (c_lib w) b 0 (- 1) None None
                        (strerror_r w errno (ERRBUF_SIZE w)))
                 (\<lambda>(rc, b). Inr (rc, reg, b))
           | Inr fp \<Rightarrow>
               (let rsa = PEM_read_RSAPrivateKey w fp in
                if rsa = 0
                then rbind (load_key_respond (c_lib w) b 0 (- 1) None None
                              (snprintf_s (ERRBUF_SIZE w) ''failed to parse the private key''))
                       (\<lambda>(rc, b). Inr (rc, reg, b))
                else
                  rbind (daemon_set_rsa (c_lib w) reg rsa) (\<lambda>(reg, key_index).
                  rbind (load_key_respond (c_lib w) b rsa key_index
                           (BN_bn2hex_e w rsa) (BN_bn2hex_n w rsa) [])
                    (\<lambda>(rc, b). Inr (rc, reg, b))))))"

text \<open>
  One turn of the loop of \<open>daemon_conn_thread\<close>, on a descriptor that delivers \<open>input\<close>:
  the registry afterwards and the frame the worker passes to \<open>expbuf_write\<close>, or \<open>None\<close>
  when the worker leaves the loop without answering.
\<close>

definition daemon_conn_turn ::
  "world \<Rightarrow> daemon_rsa_keys \<Rightarrow> char list \<Rightarrow> fault + (daemon_rsa_keys \<times> char list option)" where
  "daemon_conn_turn w reg input =
     rbind (expbuf_read (c_lib w) expbuf_zero input) (\<lambda>(rc, b, rest).
     if rc \<noteq> 0 then Inr (reg, None)
     else
       case expbuf_shift_str b of
         (None, b) \<Rightarrow> Inr (reg, None)
       | (Some cmd, b) \<Rightarrow>
           if cmd = ''priv_enc'' then
             rbind (priv_enc_stub w reg b) (\<lambda>(rc, b).
             if rc \<noteq> 0 then Inr (reg, None) else Inr (reg, Some (frame b)))
           else if cmd = ''priv_dec'' then
             rbind (priv_dec_stub w reg b) (\<lambda>(rc, b).
             if rc \<noteq> 0 then Inr (reg, None) else Inr (reg, Some (frame b)))
           else if cmd = ''sign'' then
             rbind (sign_stub w reg b) (\<lambda>(rc, b).
             if rc \<noteq> 0 then Inr (reg, None) else Inr (reg, Some (frame b)))
           else if cmd = ''load_key'' then
             rbind (load_key_stub w reg b) (\<lambda>(rc, reg, b).
             if rc \<noteq> 0 then Inr (reg, None) else Inr (reg, Some (frame b)))
           else Inr (reg, None))"

section \<open>The parent side\<close>





section \<open>Sequences of buffer operations\<close>

datatype atom = Num "64 word" | Str string | Bytes "char list"

datatype sort = SNum | SStr | SBytes

fun sort_of :: "atom \<Rightarrow> sort" where
  "sort_of (Num v) = SNum"
| "sort_of (Str s) = SStr"
| "sort_of (Bytes p) = SBytes"

fun push_atom :: "libc \<Rightarrow> expbuf \<Rightarrow> atom \<Rightarrow> fault + expbuf" where
  "push_atom lc b (Num v) = expbuf_push_num lc b v"
| "push_atom lc b (Str s) = expbuf_push_str lc b s"
| "push_atom lc b (Bytes p) = expbuf_push_bytes lc b p (of_nat (length p))"

fun push_atoms :: "libc \<Rightarrow> expbuf \<Rightarrow> atom list \<Rightarrow> fault + expbuf" where
  "push_atoms lc b [] = Inr b"
| "push_atoms lc b (a # as) = rbind (push_atom lc b a) (\<lambda>b. push_atoms lc b as)"

fun shift_atom :: "sort \<Rightarrow> expbuf \<Rightarrow> atom option \<times> expbuf" where
  "shift_atom SNum b = (case expbuf_shift_num b of (r, b) \<Rightarrow> (map_option Num r, b))"
| "shift_atom SStr b = (case expbuf_shift_str b of (r, b) \<Rightarrow> (map_option Str r, b))"
| "shift_atom SBytes b = (case expbuf_shift_bytes b of (r, b) \<Rightarrow> (map_option (Bytes \<circ> fst) r, b))"

fun shift_atoms :: "sort list \<Rightarrow> expbuf \<Rightarrow> atom list option \<times> expbuf" where
  "shift_atoms [] b = (Some [], b)"
| "shift_atoms (k # ks) b =
     (case shift_atom k b of
        (None, b) \<Rightarrow> (None, b)
      | (Some a, b) \<Rightarrow> (case shift_atoms ks b of (r, b) \<Rightarrow> (map_option ((#) a) r, b)))"

text \<open>A string atom without NUL, a blob whose length is a \<open>size_t\<close>.\<close>

fun atom_ok :: "atom \<Rightarrow> bool" where
  "atom_ok (Num v) = True"
| "atom_ok (Str s) = (CHR 0x00 \<notin> set s)"
| "atom_ok (Bytes p) = (length p < 2 ^ 64)"

text \<open>The bytes an atom takes in the buffer, and their number.\<close>

fun atom_bytes :: "atom \<Rightarrow> char list" where
  "atom_bytes (Num v) = size_t_bytes v"
| "atom_bytes (Str s) = s @ [CHR 0x00]"
| "atom_bytes (Bytes p) = size_t_bytes (of_nat (length p)) @ p"

fun atom_len :: "atom \<Rightarrow> nat" where
  "atom_len (Num v) = 8"
| "atom_len (Str s) = length s + 1"
| "atom_len (Bytes p) = 8 + length p"

datatype op =
    Reserve "64 word"
  | Push_num "64 word" | Push_str string | Push_bytes "char list" "64 word"
  | Shift_num | Shift_str | Shift_bytes
  | Dispose

fun is_push :: "op \<Rightarrow> bool" where
  "is_push (Push_num v) = True"
| "is_push (Push_str s) = True"
| "is_push (Push_bytes p l) = True"
| "is_push _ = False"

fun is_shift :: "op \<Rightarrow> bool" where
  "is_shift Shift_num = True"
| "is_shift Shift_str = True"
| "is_shift Shift_bytes = True"
| "is_shift _ = False"

fun apply_op :: "libc \<Rightarrow> expbuf \<Rightarrow> op \<Rightarrow> fault + expbuf" where
  "apply_op lc b (Reserve extra) =
     rbind (expbuf_reserve lc b (unat extra)) (\<lambda>(released, b). Inr b)"
| "apply_op lc b (Push_num v) = expbuf_push_num lc b v"
| "apply_op lc b (Push_str s) = expbuf_push_str lc b s"
| "apply_op lc b (Push_bytes p l) = expbuf_push_bytes lc b p l"
| "apply_op lc b Shift_num = Inr (snd (expbuf_shift_num b))"
| "apply_op lc b Shift_str = Inr (snd (expbuf_shift_str b))"
| "apply_op lc b Shift_bytes = Inr (snd (expbuf_shift_bytes b))"
| "apply_op lc b Dispose = Inr (snd (expbuf_dispose b))"

fun run_ops :: "libc \<Rightarrow> expbuf \<Rightarrow> op list \<Rightarrow> fault + expbuf" where
  "run_ops lc b [] = Inr b"
| "run_ops lc b (x # xs) = rbind (apply_op lc b x) (\<lambda>b. run_ops lc b xs)"

text \<open>
  An allocator that keeps every block inside the address space and gives no block for
  a request of size 0 (\<open>realloc(p, 0)\<close> frees \<open>p\<close> and returns \<open>NULL\<close>, which the C
  standard leaves to the implementation); and one that serves every request of at most
  \<open>lim\<close> bytes.
\<close>

definition alloc_ok :: "libc \<Rightarrow> bool" where
  "alloc_ok lc \<longleftrightarrow> (\<forall>p n. realloc_addr lc p n \<noteq> 0 \<longrightarrow> 0 < n \<and> realloc_addr lc p n + n < 2 ^ 64)"

definition alloc_upto :: "libc \<Rightarrow> nat \<Rightarrow> bool" where
  "alloc_upto lc lim \<longleftrightarrow> (\<forall>p n. 0 < n \<and> n \<le> lim \<longrightarrow> realloc_addr lc p n \<noteq> 0)"

text \<open>
  \<open>roomy lc lim\<close>: the allocator is sound and serves every request up to \<open>lim\<close> bytes,
  where \<open>lim\<close> is at least the first capacity and at most \<open>2 ^ 63\<close>.
\<close>

definition roomy :: "libc \<Rightarrow> nat \<Rightarrow> bool" where
  "roomy lc lim \<longleftrightarrow> alloc_ok lc \<and> alloc_upto lc lim \<and> 4096 \<le> lim \<and> lim \<le> 2 ^ 63"

section \<open>Sample values\<close>

text \<open>
  A C library whose \<open>realloc\<close> serves every request of at most \<open>2 ^ 32\<close> bytes at
  address \<open>65536\<close> and shows \<open>0xAA\<close> in memory never written; and the buffer that
  \<open>expbuf_push_num\<close> of \<open>5\<close> into the empty buffer gives with it.
\<close>

definition sample_libc :: libc where
  "sample_libc =
     \<lparr>realloc_addr = (\<lambda>p n. if 0 < n \<and> n \<le> 2 ^ 32 then 65536 else 0),
      uninit = (\<lambda>i. CHR 0xAA)\<rparr>"

definition sample_buf :: expbuf where
  "sample_buf =
     \<lparr>buf = 65536, start = 65536, end' = 65544, capacity = 4096,
      mem = size_t_bytes 5 @ replicate 4088 (CHR 0xAA)\<rparr>"



text \<open>
  A C library whose \<open>realloc\<close> returns a block for a request of size 0 as well, which the
  C standard allows.
\<close>

definition zero_size_libc :: libc where
  "zero_size_libc =
     \<lparr>realloc_addr = (\<lambda>p n. if n \<le> 2 ^ 32 then 65536 else 0),
      uninit = (\<lambda>i. CHR 0xAA)\<rparr>"

text \<open>
  A world for the examples.  The file \<open>/etc/key.pem\<close> holds a key, \<open>/etc/bad.pem\<close> holds
  no PEM, no other file exists (\<open>errno\<close> 2).  Private encryption gives 256 bytes (a
  2048-bit key), private decryption gives the two bytes \<open>hi\<close>, signing gives 256
  bytes.  The TLS context at
  address 1 accepts a key, every other context rejects it.
\<close>

definition sample_world :: world where
  "sample_world =
     \<lparr>c_lib = sample_libc,
      ERRBUF_SIZE = 256,
      malloc_addr = (\<lambda>n. 131072),
      connects = True,
      fopen = (\<lambda>fn. if fn = ''/etc/key.pem'' then Inr ''PEM''
                     else if fn = ''/etc/bad.pem'' then Inr ''junk'' else Inl 2),
      strerror_r = (\<lambda>e n. take (n - 1) ''No such file or directory''),
      PEM_read_RSAPrivateKey = (\<lambda>fp. if fp = ''PEM'' then 196608 else 0),
      BN_bn2hex_e = (\<lambda>rsa. Some ''010001''),
      BN_bn2hex_n = (\<lambda>rsa. Some ''C0FFEE''),
      BN_hex2bn = length,
      RSA_private_encrypt = (\<lambda>flen from rsa padding. (256, replicate 256 (CHR ''E''))),
      RSA_private_decrypt = (\<lambda>flen from rsa padding. (2, ''hi'')),
      RSA_sign = (\<lambda>type m m_len rsa. (1, replicate 256 (CHR ''S''), 256)),
      SSL_CTX_use_PrivateKey = (\<lambda>ctx pk. if ctx = 1 then 1 else 0)\<rparr>"

text \<open>The registry after that key has been loaded once.\<close>

definition sample_reg :: daemon_rsa_keys where
  "sample_reg = \<lparr>size' = 1, keys = 65536, keys_mem = [196608]\<rparr>"

text \<open>
  The frame \<open>priv_encdec_proxy\<close> writes for a command, \<open>flen\<close> bytes \<open>from\<close>, a key index
  and a padding; the payload \<open>load_key_stub\<close> pushes for \<open>rsa != NULL\<close>, a key index and
  three strings; and the frame \<open>openssl_privsep_load_private_key_file\<close> writes for a
  file name.
\<close>

definition priv_request :: "string \<Rightarrow> char list \<Rightarrow> 64 word \<Rightarrow> 64 word \<Rightarrow> char list" where
  "priv_request cmd from key_index padding =
     size_t_bytes (of_nat (length cmd + 1 + 8 + length from + 16)) @
     cmd @ CHR 0x00 # size_t_bytes (of_nat (length from)) @ from @
     size_t_bytes key_index @ size_t_bytes padding"

definition load_key_reply :: "64 word \<Rightarrow> 64 word \<Rightarrow> string \<Rightarrow> string \<Rightarrow> string \<Rightarrow> char list" where
  "load_key_reply ok key_index estr nstr errstr =
     size_t_bytes ok @ size_t_bytes key_index @ estr @ CHR 0x00 # nstr @ CHR 0x00 # errstr @ [CHR 0x00]"


section \<open>Basic facts\<close>

lemma ptr_diff_le: "q \<le> p \<Longrightarrow> p < 2 ^ 64 \<Longrightarrow> ptr_diff p q = p - q"
proof -
  assume a: "q \<le> p" "p < 2 ^ 64"
  have "p + 2 ^ 64 - q = (p - q) + 2 ^ 64" using a by simp
  moreover have "p - q < 2 ^ 64" using a by simp
  ultimately show ?thesis unfolding ptr_diff_def by (simp only: mod_add_self2 mod_less)
qed

lemma ptr_add_small: "p + d < 2 ^ 64 \<Longrightarrow> ptr_add p d = p + d"
  unfolding ptr_add_def by (rule mod_less)

lemma le_val_le_bytes: "le_val (le_bytes k v) = v mod 256 ^ k"
proof (induction k arbitrary: v)
  case 0
  show ?case by simp
next
  case (Suc k)
  have "le_val (le_bytes (Suc k) v) = v mod 256 + 256 * ((v div 256) mod 256 ^ k)"
    by (simp add: Suc.IH)
  also have "\<dots> = v mod 256 ^ Suc k"
    by (simp add: mod_mult2_eq)
  finally show ?case .
qed

lemma length_le_bytes: "length (le_bytes k v) = k"
  by (induction k arbitrary: v) simp_all

lemma size_t_value_bytes: "size_t_value (size_t_bytes v) = v"
proof -
  have "unat v < 2 ^ LENGTH(64)" by (rule unsigned_less)
  then have "unat v < 256 ^ 8" by simp
  then have "unat v mod 256 ^ 8 = unat v" by (rule mod_less)
  then show ?thesis
    by (simp add: size_t_value_def size_t_bytes_def le_val_le_bytes del: power_numeral)
qed

lemma length_size_t_bytes: "length (size_t_bytes v) = 8"
  by (simp add: size_t_bytes_def length_le_bytes)

lemma expbuf_wf_zero: "expbuf_wf expbuf_zero"
  by (simp add: expbuf_wf_def expbuf_zero_def pow2_or_0_def)

lemma ptr_diff_wrap: "p < q \<Longrightarrow> q < 2 ^ 64 \<Longrightarrow> ptr_diff p q = p + 2 ^ 64 - q"
  unfolding ptr_diff_def by (rule mod_less) simp

lemma ptr_diff_room:
  assumes "bp \<le> e" "e \<le> bp + c" "c < 2 ^ 64"
  shows "ptr_diff (bp + c) e = bp + c - e"
proof -
  have "bp + c + 2 ^ 64 - e = (bp + c - e) + 2 ^ 64" using assms by simp
  moreover have "bp + c - e < 2 ^ 64" using assms by simp
  ultimately show ?thesis unfolding ptr_diff_def by (simp only: mod_add_self2 mod_less)
qed

lemma ptr_rebase:
  assumes "old \<le> p" "n + (p - old) < 2 ^ 64" "old < 2 ^ 64"
  shows "ptr_add p (ptr_diff n old) = n + (p - old)"
proof -
  have "(p + (n + 2 ^ 64 - old) mod 2 ^ 64) mod 2 ^ 64 = (p + (n + 2 ^ 64 - old)) mod 2 ^ 64"
    by (rule mod_add_right_eq)
  also have "p + (n + 2 ^ 64 - old) = (n + (p - old)) + 2 ^ 64" using assms by simp
  also have "((n + (p - old)) + 2 ^ 64) mod 2 ^ 64 = n + (p - old)"
    using assms(2) by (simp only: mod_add_self2 mod_less)
  finally show ?thesis unfolding ptr_add_def ptr_diff_def .
qed

lemma double_pow2:
  assumes "pow2_or_0 c"
  shows "pow2_or_0 (c * 2 mod 2 ^ 64) \<and> (c * 2 mod 2 ^ 64 = 0 \<or> c * 2 mod 2 ^ 64 = c * 2)"
proof (cases "c = 0")
  case True
  then show ?thesis by (simp add: pow2_or_0_def)
next
  case False
  then obtain k where k: "k \<le> 63" "c = 2 ^ k" using assms by (auto simp: pow2_or_0_def)
  show ?thesis
  proof (cases "k = 63")
    case True
    then have "c * 2 = 2 ^ 64" using k by simp
    then have "c * 2 mod 2 ^ 64 = 0" by (simp only: mod_self)
    then show ?thesis by (simp add: pow2_or_0_def)
  next
    case False
    then have k1: "Suc k \<le> 63" using k by simp
    have c2: "c * 2 = 2 ^ Suc k" using k by simp
    have "(2::nat) ^ Suc k < 2 ^ 64" using k1 by (intro power_strict_increasing) simp_all
    then have "c * 2 mod 2 ^ 64 = c * 2" unfolding c2 by (rule mod_less)
    moreover have "pow2_or_0 (c * 2)" unfolding c2 pow2_or_0_def using k1 by blast
    ultimately show ?thesis by simp
  qed
qed



lemma pow2_or_0_less: "pow2_or_0 c \<Longrightarrow> c < 2 ^ 64"
proof -
  assume "pow2_or_0 c"
  then consider "c = 0" | k where "k \<le> 63" "c = 2 ^ k" by (auto simp: pow2_or_0_def)
  then show ?thesis
  proof cases
    case 1
    then show ?thesis by simp
  next
    case 2
    have "(2::nat) ^ k < 2 ^ 64" using 2(1) by (intro power_strict_increasing) simp_all
    then show ?thesis using 2(2) by simp
  qed
qed

lemma grow_capacity_zero: "grow_capacity fuel bp e extra 0 = Some c' \<Longrightarrow> c' = 0"
  by (induction fuel) (auto split: if_splits)

lemma grow_capacity_Some:
  assumes "grow_capacity fuel bp e extra c = Some c'" "bp \<le> e" "pow2_or_0 c" "c = 0 \<or> e \<le> bp + c"
  shows "pow2_or_0 c' \<and> (c' = 0 \<or> (c \<le> c' \<and> e \<le> bp + c' \<and> extra \<le> bp + c' - e))"
  using assms
proof (induction fuel arbitrary: c)
  case 0
  then show ?case by simp
next
  case (Suc fuel)
  show ?case
  proof (cases "ptr_diff (bp + c) e < extra")
    case False
    then have c': "c' = c" using Suc.prems(1) by simp
    show ?thesis
    proof (cases "c = 0")
      case True
      then show ?thesis using c' Suc.prems by simp
    next
      case False
      then have le: "e \<le> bp + c" using Suc.prems by simp
      have "ptr_diff (bp + c) e = bp + c - e"
        using Suc.prems(2) le pow2_or_0_less [OF Suc.prems(3)] by (rule ptr_diff_room)
      then show ?thesis using c' Suc.prems(3) le \<open>\<not> ptr_diff (bp + c) e < extra\<close> by simp
    qed
  next
    case True
    let ?c2 = "c * 2 mod 2 ^ 64"
    have rec: "grow_capacity fuel bp e extra ?c2 = Some c'" using Suc.prems(1) True by simp
    have d: "pow2_or_0 ?c2" "?c2 = 0 \<or> ?c2 = c * 2" using double_pow2 [OF Suc.prems(3)] by simp_all
    show ?thesis
    proof (cases "?c2 = 0")
      case True
      then have "c' = 0" using rec grow_capacity_zero by simp
      then show ?thesis by (simp add: pow2_or_0_def)
    next
      case False
      then have c2: "?c2 = c * 2" and cn: "c \<noteq> 0" using d(2) by auto
      then have "?c2 = 0 \<or> e \<le> bp + ?c2" using Suc.prems(4) by simp
      from Suc.IH [OF rec Suc.prems(2) d(1) this]
      show ?thesis using c2 by auto
    qed
  qed
qed

lemma expbuf_wfD:
  assumes "expbuf_wf b"
  shows "buf b \<le> start b" "start b \<le> end' b" "end' b \<le> buf b + capacity b"
    "buf b + capacity b < 2 ^ 64" "length (mem b) = capacity b" "pow2_or_0 (capacity b)"
    "buf b = 0 \<longleftrightarrow> capacity b = 0"
  using assms by (simp_all add: expbuf_wf_def)

lemma expbuf_size_wf: "expbuf_wf b \<Longrightarrow> expbuf_size b = end' b - start b"
proof -
  assume wf: "expbuf_wf b"
  show ?thesis unfolding expbuf_size_def
    by (rule ptr_diff_le) (use expbuf_wfD [OF wf] in auto)
qed

lemma live_wf:
  "expbuf_wf b \<Longrightarrow> live b = take (end' b - start b) (drop (start b - buf b) (mem b))"
proof -
  assume wf: "expbuf_wf b"
  have "ptr_diff (start b) (buf b) = start b - buf b"
    by (rule ptr_diff_le) (use expbuf_wfD [OF wf] in auto)
  then show ?thesis by (simp add: live_def load_def expbuf_size_wf [OF wf])
qed

lemma expbuf_reserve_Inr:
  assumes wf: "expbuf_wf b" and ok: "alloc_ok lc" and r: "expbuf_reserve lc b extra = Inr (rel, b')"
  shows "expbuf_wf b' \<and> start b' - buf b' = start b - buf b \<and> end' b' - buf b' = end' b - buf b \<and>
         take (capacity b) (mem b') = mem b \<and> end' b' + extra \<le> buf b' + capacity b' \<and>
         capacity b \<le> capacity b'"
proof (cases "extra \<le> ptr_diff (buf b + capacity b) (end' b)")
  case True
  then have b': "b' = b" using r by (simp add: expbuf_reserve_def)
  have "ptr_diff (buf b + capacity b) (end' b) = buf b + capacity b - end' b"
    by (rule ptr_diff_room) (use expbuf_wfD [OF wf] in auto)
  then show ?thesis using True b' wf expbuf_wfD [OF wf] by simp
next
  case False
  let ?c0 = "if capacity b = 0 then 4096 else capacity b"
  from False r obtain c' where g: "grow_capacity 65 (buf b) (end' b) extra ?c0 = Some c'"
    by (auto simp: expbuf_reserve_def split: option.splits)
  let ?n = "realloc_addr lc (buf b) c'"
  from False r g have n0: "?n \<noteq> 0"
    by (auto simp: expbuf_reserve_def Let_def split: if_splits)
  then have c'pos: "0 < c'" and fits: "?n + c' < 2 ^ 64"
    using ok by (auto simp: alloc_ok_def)
  have b': "b' = \<lparr>buf = ?n, start = ptr_add (start b) (ptr_diff ?n (buf b)),
                  end' = ptr_add (end' b) (ptr_diff ?n (buf b)), capacity = c',
                  mem = take c' (mem b) @ map (uninit lc) [length (mem b)..<c']\<rparr>"
    using False r g n0 by (auto simp: expbuf_reserve_def Let_def split: if_splits)
  have "(4096::nat) = 2 ^ 12" by simp
  then have "pow2_or_0 4096" unfolding pow2_or_0_def by (intro disjI2 bexI [of _ 12]) simp_all
  then have p0: "pow2_or_0 ?c0" using expbuf_wfD(6) [OF wf] by simp
  have le0: "?c0 = 0 \<or> end' b \<le> buf b + ?c0" using expbuf_wfD [OF wf] by auto
  have G: "pow2_or_0 c'" "?c0 \<le> c'" "end' b \<le> buf b + c'" "extra \<le> buf b + c' - end' b"
    using grow_capacity_Some [OF g _ p0 le0] expbuf_wfD [OF wf] c'pos by auto
  have cap: "capacity b \<le> c'" using G(2) by (auto split: if_splits)
  have bl: "buf b < 2 ^ 64" using expbuf_wfD [OF wf] by simp
  have s: "ptr_add (start b) (ptr_diff ?n (buf b)) = ?n + (start b - buf b)"
    by (rule ptr_rebase) (use expbuf_wfD [OF wf] G fits bl in auto)
  have e: "ptr_add (end' b) (ptr_diff ?n (buf b)) = ?n + (end' b - buf b)"
    by (rule ptr_rebase) (use expbuf_wfD [OF wf] G fits bl in auto)
  have len: "length (mem b) = capacity b" using expbuf_wfD [OF wf] by simp
  have o: "buf b \<le> start b" "start b \<le> end' b" "end' b \<le> buf b + c'"
    using expbuf_wfD [OF wf] G(3) by simp_all
  have ord: "?n \<le> ?n + (start b - buf b)" "?n + (start b - buf b) \<le> ?n + (end' b - buf b)"
    "?n + (end' b - buf b) \<le> ?n + c'"
    using o by arith+
  have w: "expbuf_wf b'"
    unfolding expbuf_wf_def b' s e using ord fits n0 c'pos G(1) cap
    by (simp add: len del: add_le_cancel_left le_add1)
  have "end' b' + extra \<le> buf b' + capacity b'"
    unfolding b' e using o G(4) by simp
  moreover have "take (capacity b) (mem b') = mem b" unfolding b' using cap by (simp add: len)
  ultimately show ?thesis
    using w o cap unfolding b' s e by simp
qed

lemma take_drop_take: "s + k \<le> c \<Longrightarrow> take k (drop s (take c m)) = take k (drop s m)"
  by (simp add: drop_take min_def)

lemma expbuf_reserve_live:
  assumes wf: "expbuf_wf b" and ok: "alloc_ok lc" and r: "expbuf_reserve lc b extra = Inr (rel, b')"
  shows "live b' = live b"
proof -
  note R = expbuf_reserve_Inr [OF wf ok r]
  note W = expbuf_wfD [OF wf]
  have wf': "expbuf_wf b'" using R by simp
  note W' = expbuf_wfD [OF wf']
  have sz: "end' b' - start b' = end' b - start b" using R W W' by arith
  have "live b = take (end' b - start b) (drop (start b - buf b) (take (capacity b) (mem b')))"
    using R by (simp add: live_wf [OF wf])
  also have "\<dots> = take (end' b - start b) (drop (start b - buf b) (mem b'))"
    by (rule take_drop_take) (use W in arith)
  also have "\<dots> = live b'" using R sz by (simp add: live_wf [OF wf'])
  finally show ?thesis by simp
qed

lemma store_advance:
  assumes wf: "expbuf_wf b" and room: "end' b + length src \<le> buf b + capacity b"
    and l: "l = length src"
  shows "\<exists>b2. rbind (store b (end' b) src) (\<lambda>b. Inr (b\<lparr>end' := ptr_add (end' b) l\<rparr>)) = Inr b2 \<and>
           expbuf_wf b2 \<and> live b2 = live b @ src \<and> buf b2 = buf b \<and> start b2 = start b \<and>
           end' b2 = end' b + l \<and> capacity b2 = capacity b"
proof -
  note W = expbuf_wfD [OF wf]
  let ?off = "end' b - buf b"
  have off: "ptr_diff (end' b) (buf b) = ?off"
    by (rule ptr_diff_le) (use W in auto)
  have fit: "?off + length src \<le> length (mem b)" using W room by arith
  let ?m = "take ?off (mem b) @ src @ drop (?off + length src) (mem b)"
  have st: "store b (end' b) src = Inr (b\<lparr>mem := ?m\<rparr>)"
    using fit by (simp add: store_def off Let_def)
  have adv: "ptr_add (end' b) l = end' b + l"
    by (rule ptr_add_small) (use W room l in arith)
  let ?b2 = "b\<lparr>mem := ?m, end' := end' b + l\<rparr>"
  have r: "rbind (store b (end' b) src) (\<lambda>b. Inr (b\<lparr>end' := ptr_add (end' b) l\<rparr>)) = Inr ?b2"
    by (simp add: st rbind_def adv)
  have wf2: "expbuf_wf ?b2"
    unfolding expbuf_wf_def using W room l fit by simp
  have so: "start b - buf b \<le> ?off" using W by arith
  have "live ?b2 = take (end' b + l - start b) (drop (start b - buf b) ?m)"
    by (simp add: live_wf [OF wf2])
  also have "drop (start b - buf b) ?m
      = drop (start b - buf b) (take ?off (mem b)) @ src @ drop (?off + length src) (mem b)"
    using so fit by simp
  also have "take (end' b + l - start b) \<dots>
      = drop (start b - buf b) (take ?off (mem b)) @ src"
  proof -
    have "length (drop (start b - buf b) (take ?off (mem b))) = end' b - start b"
      using W fit by simp
    moreover have "end' b + l - start b = (end' b - start b) + length src" using W l by arith
    ultimately show ?thesis by simp
  qed
  also have "drop (start b - buf b) (take ?off (mem b)) = live b"
    using W by (simp add: live_wf [OF wf] drop_take) 
  finally have "live ?b2 = live b @ src" .
  then show ?thesis using r wf2 by (intro exI [of _ ?b2]) simp
qed

lemma length_live: "expbuf_wf b \<Longrightarrow> length (live b) = end' b - start b"
proof -
  assume wf: "expbuf_wf b"
  note W = expbuf_wfD [OF wf]
  have "end' b - start b \<le> capacity b - (start b - buf b)" using W by arith
  then show ?thesis using W by (simp add: live_wf [OF wf])
qed

lemma advance_start:
  assumes wf: "expbuf_wf b" and n: "n \<le> end' b - start b"
  shows "ptr_add (start b) n = start b + n"
    and "expbuf_wf (b\<lparr>start := start b + n\<rparr>)"
    and "live (b\<lparr>start := start b + n\<rparr>) = drop n (live b)"
    and "load b (start b) n = take n (live b)"
proof -
  note W = expbuf_wfD [OF wf]
  show "ptr_add (start b) n = start b + n"
    by (rule ptr_add_small) (use W n in arith)
  show wf': "expbuf_wf (b\<lparr>start := start b + n\<rparr>)"
    unfolding expbuf_wf_def using W n by simp
  have "live (b\<lparr>start := start b + n\<rparr>)
      = take (end' b - (start b + n)) (drop (start b + n - buf b) (mem b))"
    by (simp add: live_wf [OF wf'])
  also have "start b + n - buf b = n + (start b - buf b)" using W by arith
  also have "take (end' b - (start b + n)) (drop (n + (start b - buf b)) (mem b))
      = drop n (take (end' b - start b) (drop (start b - buf b) (mem b)))"
    using n by (simp add: drop_take add.commute)
  finally show "live (b\<lparr>start := start b + n\<rparr>) = drop n (live b)"
    by (simp add: live_wf [OF wf])
  have "ptr_diff (start b) (buf b) = start b - buf b"
    by (rule ptr_diff_le) (use W in auto)
  then show "load b (start b) n = take n (live b)"
    using n by (simp add: load_def live_wf [OF wf] min_def)
qed

lemma expbuf_shift_num_None: "expbuf_size b < 8 \<Longrightarrow> expbuf_shift_num b = (None, b)"
  by (simp add: expbuf_shift_num_def)

lemma expbuf_shift_num_Some:
  assumes wf: "expbuf_wf b" and l: "live b = size_t_bytes v @ rest"
  shows "expbuf_shift_num b = (Some v, b\<lparr>start := start b + 8\<rparr>)"
    and "expbuf_wf (b\<lparr>start := start b + 8\<rparr>)"
    and "live (b\<lparr>start := start b + 8\<rparr>) = rest"
proof -
  have len: "end' b - start b = 8 + length rest"
    using length_live [OF wf] l by (simp add: length_size_t_bytes)
  then have n: "8 \<le> end' b - start b" by simp
  note A = advance_start [OF wf n]
  have "load b (start b) 8 = size_t_bytes v"
    using A(4) l by (simp add: length_size_t_bytes)
  then show "expbuf_shift_num b = (Some v, b\<lparr>start := start b + 8\<rparr>)"
    using n by (simp add: expbuf_shift_num_def expbuf_size_wf [OF wf] A(1) size_t_value_bytes)
  show "expbuf_wf (b\<lparr>start := start b + 8\<rparr>)" by (rule A(2))
  show "live (b\<lparr>start := start b + 8\<rparr>) = rest"
    using A(3) l by (simp add: length_size_t_bytes)
qed

lemma c_str_append_nul: "CHR 0x00 \<notin> set s \<Longrightarrow> c_str (s @ CHR 0x00 # rest) = s"
  by (auto simp: c_str_def takeWhile_tail)

lemma c_str_nul_free: "CHR 0x00 \<notin> set s \<Longrightarrow> c_str s = s"
  by (auto simp: c_str_def)

lemma expbuf_shift_str_Some:
  assumes wf: "expbuf_wf b" and l: "live b = s @ CHR 0x00 # rest" and s: "CHR 0x00 \<notin> set s"
  shows "expbuf_shift_str b = (Some s, b\<lparr>start := start b + (length s + 1)\<rparr>)"
    and "expbuf_wf (b\<lparr>start := start b + (length s + 1)\<rparr>)"
    and "live (b\<lparr>start := start b + (length s + 1)\<rparr>) = rest"
proof -
  have len: "end' b - start b = length s + 1 + length rest"
    using length_live [OF wf] l by simp
  then have n: "length s + 1 \<le> end' b - start b" by simp
  then have n': "length s \<le> end' b - start b" by simp
  note A = advance_start [OF wf n]
  have reg: "load b (start b) (expbuf_size b) = s @ CHR 0x00 # rest"
    using l by (simp add: live_def)
  have p1: "ptr_add (start b) (length s) = start b + length s"
    by (rule advance_start(1) [OF wf n'])
  have "start b + length s + 1 < 2 ^ 64" using expbuf_wfD [OF wf] n by arith
  then have p2: "ptr_add (start b + length s) (Suc 0) = Suc (start b + length s)"
    using ptr_add_small [of "start b + length s" 1] by simp
  show "expbuf_shift_str b = (Some s, b\<lparr>start := start b + (length s + 1)\<rparr>)"
    by (simp add: expbuf_shift_str_def reg c_str_append_nul [OF s] p1 p2 Let_def)
  show "expbuf_wf (b\<lparr>start := start b + (length s + 1)\<rparr>)" by (rule A(2))
  show "live (b\<lparr>start := start b + (length s + 1)\<rparr>) = rest"
    using A(3) l by simp
qed

lemma expbuf_shift_bytes_Some:
  assumes wf: "expbuf_wf b" and l: "live b = size_t_bytes n @ p @ rest" and p: "length p = unat n"
  shows "expbuf_shift_bytes b = (Some (p, n), b\<lparr>start := start b + (8 + unat n)\<rparr>)"
    and "expbuf_wf (b\<lparr>start := start b + (8 + unat n)\<rparr>)"
    and "live (b\<lparr>start := start b + (8 + unat n)\<rparr>) = rest"
proof -
  let ?b1 = "b\<lparr>start := start b + 8\<rparr>"
  note N = expbuf_shift_num_Some [OF wf l]
  have len: "end' ?b1 - start ?b1 = unat n + length rest"
    using length_live [OF N(2)] N(3) p by simp
  then have n: "unat n \<le> end' ?b1 - start ?b1" by simp
  note A = advance_start [OF N(2) n]
  have ld: "load ?b1 (start ?b1) (unat n) = p" using A(4) N(3) p by simp
  have eq: "?b1\<lparr>start := start ?b1 + unat n\<rparr> = b\<lparr>start := start b + (8 + unat n)\<rparr>"
    by simp
  show "expbuf_shift_bytes b = (Some (p, n), b\<lparr>start := start b + (8 + unat n)\<rparr>)"
    using n ld A(1) by (simp add: expbuf_shift_bytes_def N(1) expbuf_size_wf [OF N(2)])
  show "expbuf_wf (b\<lparr>start := start b + (8 + unat n)\<rparr>)" using A(2) by (simp add: add.assoc)
  show "live (b\<lparr>start := start b + (8 + unat n)\<rparr>) = rest"
    using A(3) N(3) p by (simp add: add.assoc)
qed

lemma expbuf_shift_bytes_short:
  assumes wf: "expbuf_wf b" and l: "live b = size_t_bytes n @ rest" and p: "length rest < unat n"
  shows "expbuf_shift_bytes b = (None, b\<lparr>start := start b + 8\<rparr>)"
proof -
  let ?b1 = "b\<lparr>start := start b + 8\<rparr>"
  note N = expbuf_shift_num_Some [OF wf l]
  have "end' ?b1 - start ?b1 = length rest"
    using length_live [OF N(2)] N(3) by simp
  then have "expbuf_size ?b1 < unat n" using p by (simp add: expbuf_size_wf [OF N(2)])
  then show ?thesis by (simp add: expbuf_shift_bytes_def N(1))
qed

lemma pow2_or_0_4096: "pow2_or_0 4096"
proof -
  have "(4096::nat) = 2 ^ 12" by simp
  then show ?thesis unfolding pow2_or_0_def by (intro disjI2 bexI [of _ 12]) simp_all
qed

lemma sample_buf_wf: "expbuf_wf sample_buf"
  by (simp add: expbuf_wf_def sample_buf_def length_size_t_bytes pow2_or_0_4096)

lemma sample_buf_live: "live sample_buf = size_t_bytes 5"
  using live_wf [OF sample_buf_wf] by (simp add: sample_buf_def length_size_t_bytes)

lemma alloc_ok_sample: "alloc_ok sample_libc"
  by (simp add: alloc_ok_def sample_libc_def)

lemma alloc_upto_sample: "alloc_upto sample_libc (2 ^ 32)"
  by (simp add: alloc_upto_def sample_libc_def)

lemma expbuf_size_zero: "expbuf_size expbuf_zero = 0"
  using expbuf_size_wf [OF expbuf_wf_zero] by (simp add: expbuf_zero_def)

lemma live_zero: "live expbuf_zero = []"
  using live_wf [OF expbuf_wf_zero] by (simp add: expbuf_zero_def)

text \<open>
  Claim C10.  \<open>expbuf_dispose\<close> leaves the record all zero, whatever the buffer was: no
  block, capacity 0, no live byte, a well-formed buffer.  Disposing it again releases
  nothing and leaves the same record, so disposing twice is disposing once; and a push
  into a buffer that was just disposed is a push into the empty buffer \<open>{}\<close>.
\<close>

theorem expbuf_dispose_idempotent:
  "snd (expbuf_dispose b) = expbuf_zero \<and>
   buf (snd (expbuf_dispose b)) = 0 \<and> start (snd (expbuf_dispose b)) = 0 \<and>
   end' (snd (expbuf_dispose b)) = 0 \<and> capacity (snd (expbuf_dispose b)) = 0 \<and>
   expbuf_size (snd (expbuf_dispose b)) = 0 \<and> live (snd (expbuf_dispose b)) = [] \<and>
   expbuf_wf (snd (expbuf_dispose b)) \<and>
   expbuf_dispose (snd (expbuf_dispose b)) = (None, snd (expbuf_dispose b)) \<and>
   expbuf_push_num lc (snd (expbuf_dispose b)) v = expbuf_push_num lc expbuf_zero v \<and>
   expbuf_push_bytes lc (snd (expbuf_dispose b)) p l = expbuf_push_bytes lc expbuf_zero p l"
proof -
  have z: "snd (expbuf_dispose b) = expbuf_zero" by (simp add: expbuf_dispose_def Let_def)
  have d: "expbuf_dispose expbuf_zero = (None, expbuf_zero)"
    by (simp add: expbuf_dispose_def expbuf_zero_def)
  show ?thesis
    unfolding z using d expbuf_size_zero live_zero expbuf_wf_zero by (simp add: expbuf_zero_def)
qed

theorem expbuf_dispose_idempotent_witness:
  "snd (expbuf_dispose sample_buf) = expbuf_zero \<and>
   expbuf_dispose (snd (expbuf_dispose sample_buf)) = (None, snd (expbuf_dispose sample_buf)) \<and>
   expbuf_wf (snd (expbuf_dispose sample_buf))"
  using expbuf_dispose_idempotent [where b = sample_buf and lc = sample_libc and v = 0 and p = "[]" and l = 0]
  by blast

text \<open>
  Claim C9.  When the live region of a well-formed buffer starts with a length prefix \<open>n\<close>
  and fewer than \<open>n\<close> bytes follow, \<open>expbuf_shift_bytes\<close> returns \<open>NULL\<close> and leaves \<open>start\<close>
  eight bytes further: the prefix is consumed, the buffer is not the one passed in.
  \<open>expbuf_shift_num\<close>, when it fails, returns the buffer as it was.
\<close>

theorem expbuf_shift_bytes_not_atomic:
  assumes "expbuf_wf b" and "live b = size_t_bytes n @ rest" and "length rest < unat n"
  shows "fst (expbuf_shift_bytes b) = None \<and>
         start (snd (expbuf_shift_bytes b)) = start b + 8 \<and>
         live (snd (expbuf_shift_bytes b)) = rest \<and>
         snd (expbuf_shift_bytes b) \<noteq> b \<and>
         (fst (expbuf_shift_num b') = None \<longrightarrow> snd (expbuf_shift_num b') = b')"
proof -
  have s: "expbuf_shift_bytes b = (None, b\<lparr>start := start b + 8\<rparr>)"
    using assms by (rule expbuf_shift_bytes_short)
  have "start (b\<lparr>start := start b + 8\<rparr>) \<noteq> start b" by simp
  then have ne: "b\<lparr>start := start b + 8\<rparr> \<noteq> b" by metis
  have "fst (expbuf_shift_num b') = None \<longrightarrow> snd (expbuf_shift_num b') = b'"
    by (simp add: expbuf_shift_num_def)
  then show ?thesis
    using ne expbuf_shift_num_Some(3) [OF assms(1,2)] by (simp add: s)
qed

theorem expbuf_shift_bytes_not_atomic_witness:
  "expbuf_wf sample_buf \<and> live sample_buf = size_t_bytes 5 @ [] \<and>
   length ([] :: char list) < unat (5 :: 64 word) \<and>
   fst (expbuf_shift_bytes sample_buf) = None \<and>
   start (snd (expbuf_shift_bytes sample_buf)) = start sample_buf + 8 \<and>
   snd (expbuf_shift_bytes sample_buf) \<noteq> sample_buf \<and>
   fst (expbuf_shift_num expbuf_zero) = None \<and>
   snd (expbuf_shift_num expbuf_zero) = expbuf_zero"
proof -
  have l: "live sample_buf = size_t_bytes 5 @ []" by (simp add: sample_buf_live)
  have n: "length ([] :: char list) < unat (5 :: 64 word)" by simp
  have f: "fst (expbuf_shift_num expbuf_zero) = None"
    by (simp add: expbuf_shift_num_def expbuf_size_zero)
  show ?thesis
    using expbuf_shift_bytes_not_atomic [OF sample_buf_wf l n, of expbuf_zero] sample_buf_wf l n f
    by simp
qed

lemma grow_capacity_succeeds:
  assumes "c = 2 ^ k" "k \<le> 63" "64 \<le> fuel + k" "bp \<le> e" "e \<le> bp + c"
    "(e - bp) + extra \<le> 2 ^ 62"
  shows "\<exists>c'. grow_capacity fuel bp e extra c = Some c' \<and> 0 < c' \<and>
              c' \<le> max c (2 * ((e - bp) + extra))"
  using assms
proof (induction fuel arbitrary: c k)
  case 0
  then show ?case by simp
next
  case (Suc fuel)
  have cl: "c < 2 ^ 64"
    using Suc.prems(1,2) power_strict_increasing [of k 64 "2::nat"] by simp
  have pd: "ptr_diff (bp + c) e = bp + c - e"
    using Suc.prems(4,5) cl by (rule ptr_diff_room)
  show ?case
  proof (cases "ptr_diff (bp + c) e < extra")
    case False
    then have "grow_capacity (Suc fuel) bp e extra c = Some c"
      by (simp only: grow_capacity.simps if_False)
    moreover have "0 < c" using Suc.prems(1) by simp
    ultimately show ?thesis by (intro exI [of _ c]) simp
  next
    case True
    then have lt: "c < (e - bp) + extra" using pd Suc.prems(4,5) by arith
    then have "(2::nat) ^ k < 2 ^ 62" using Suc.prems(1,6) by simp
    then have k62: "k < 62" by (rule power_less_imp_less_exp [rotated]) simp
    have c2: "c * 2 = 2 ^ Suc k" using Suc.prems(1) by simp
    have "(2::nat) ^ Suc k < 2 ^ 64" using k62 by (intro power_strict_increasing) simp_all
    then have m: "c * 2 mod 2 ^ 64 = 2 ^ Suc k" unfolding c2 by (rule mod_less)
    have "\<exists>c'. grow_capacity fuel bp e extra (2 ^ Suc k) = Some c' \<and> 0 < c' \<and>
              c' \<le> max (2 ^ Suc k) (2 * ((e - bp) + extra))"
    proof (rule Suc.IH [of "2 ^ Suc k" "Suc k"])
      show "Suc k \<le> 63" using k62 by simp
      show "64 \<le> fuel + Suc k" using Suc.prems(3) by simp
      show "e \<le> bp + 2 ^ Suc k" using Suc.prems(5) c2 by arith
    qed (use Suc.prems in simp_all)
    then obtain c' where c': "grow_capacity fuel bp e extra (2 ^ Suc k) = Some c'" "0 < c'"
      "c' \<le> max (2 ^ Suc k) (2 * ((e - bp) + extra))" by blast
    have "max ((2::nat) ^ Suc k) (2 * ((e - bp) + extra)) = 2 * ((e - bp) + extra)"
      using lt c2 by simp
    then have "c' \<le> max c (2 * ((e - bp) + extra))" using c'(3) by simp
    moreover have "grow_capacity (Suc fuel) bp e extra c = Some c'"
      using True c'(1) by (simp only: grow_capacity.simps m if_True)
    ultimately show ?thesis using c'(2) by blast
  qed
qed

lemma pow2_or_0_nonzero: "pow2_or_0 c \<Longrightarrow> c \<noteq> 0 \<Longrightarrow> \<exists>k. c = 2 ^ k \<and> k \<le> 63"
  by (auto simp: pow2_or_0_def)

lemma roomyD:
  assumes "roomy lc lim"
  shows "alloc_ok lc" "alloc_upto lc lim" "4096 \<le> lim" "lim \<le> 2 ^ 63"
  using assms by (simp_all add: roomy_def)

lemma expbuf_reserve_succeeds:
  assumes wf: "expbuf_wf b" and ro: "roomy lc lim" and cap: "capacity b \<le> lim"
    and need: "2 * ((end' b - buf b) + extra) \<le> lim"
  shows "\<exists>rel b'. expbuf_reserve lc b extra = Inr (rel, b') \<and> capacity b' \<le> lim"
proof (cases "extra \<le> ptr_diff (buf b + capacity b) (end' b)")
  case True
  then show ?thesis using cap by (simp add: expbuf_reserve_def)
next
  case False
  note W = expbuf_wfD [OF wf]
  note R = roomyD [OF ro]
  let ?c0 = "if capacity b = 0 then 4096 else capacity b"
  have p0: "pow2_or_0 ?c0" using pow2_or_0_4096 W(6) by simp
  have "?c0 \<noteq> 0" by simp
  then obtain k where k: "?c0 = 2 ^ k" "k \<le> 63"
    using pow2_or_0_nonzero [OF p0] by blast
  have n62: "(end' b - buf b) + extra \<le> 2 ^ 62" using need R(4) by simp
  have "\<exists>c'. grow_capacity 65 (buf b) (end' b) extra ?c0 = Some c' \<and> 0 < c' \<and>
              c' \<le> max ?c0 (2 * ((end' b - buf b) + extra))"
    using k(1,2)
  proof (rule grow_capacity_succeeds)
    show "64 \<le> 65 + k" by simp
    show "buf b \<le> end' b" using W by simp
    show "end' b \<le> buf b + ?c0" using W by auto
    show "(end' b - buf b) + extra \<le> 2 ^ 62" by (rule n62)
  qed
  then obtain c' where c': "grow_capacity 65 (buf b) (end' b) extra ?c0 = Some c'" "0 < c'"
      "c' \<le> max ?c0 (2 * ((end' b - buf b) + extra))" by blast
  have "?c0 \<le> lim" using cap R(3) by simp
  then have "c' \<le> lim" using c'(3) need by simp
  then have "realloc_addr lc (buf b) c' \<noteq> 0"
    using R(2) c'(2) by (simp add: alloc_upto_def)
  then show ?thesis
    using False c'(1) \<open>c' \<le> lim\<close> by (simp add: expbuf_reserve_def Let_def)
qed

lemma reserve_store_Inr:
  assumes wf: "expbuf_wf b" and ok: "alloc_ok lc" and l: "l = length src"
    and r: "rbind (expbuf_reserve lc b l) (\<lambda>(released, b).
            rbind (store b (end' b) src) (\<lambda>b. Inr (b\<lparr>end' := ptr_add (end' b) l\<rparr>))) = Inr b'"
  shows "expbuf_wf b' \<and> live b' = live b @ src \<and> start b' - buf b' = start b - buf b \<and>
         end' b' - buf b' = (end' b - buf b) + l \<and> capacity b \<le> capacity b'"
proof -
  from r obtain rel b1 where b1: "expbuf_reserve lc b l = Inr (rel, b1)"
    and r1: "rbind (store b1 (end' b1) src) (\<lambda>b. Inr (b\<lparr>end' := ptr_add (end' b) l\<rparr>)) = Inr b'"
    by (auto simp: rbind_def split: sum.splits)
  note R = expbuf_reserve_Inr [OF wf ok b1]
  have wf1: "expbuf_wf b1" using R by simp
  have room: "end' b1 + length src \<le> buf b1 + capacity b1" using R l by simp
  from store_advance [OF wf1 room l] r1
  have S: "expbuf_wf b'" "live b' = live b1 @ src" "buf b' = buf b1" "start b' = start b1"
    "end' b' = end' b1 + l" "capacity b' = capacity b1" by auto
  note W1 = expbuf_wfD [OF wf1]
  have "end' b' - buf b' = (end' b - buf b) + l" using S R W1 by arith
  then show ?thesis using S R expbuf_reserve_live [OF wf ok b1] by simp
qed

lemma reserve_store_succeeds:
  assumes wf: "expbuf_wf b" and ro: "roomy lc lim" and cap: "capacity b \<le> lim"
    and need: "2 * ((end' b - buf b) + l) \<le> lim" and l: "l = length src"
  shows "\<exists>b'. rbind (expbuf_reserve lc b l) (\<lambda>(released, b).
            rbind (store b (end' b) src) (\<lambda>b. Inr (b\<lparr>end' := ptr_add (end' b) l\<rparr>))) = Inr b' \<and>
          capacity b' \<le> lim"
proof -
  from expbuf_reserve_succeeds [OF wf ro cap need]
  obtain rel b1 where b1: "expbuf_reserve lc b l = Inr (rel, b1)" "capacity b1 \<le> lim" by blast
  note R = expbuf_reserve_Inr [OF wf roomyD(1) [OF ro] b1(1)]
  have wf1: "expbuf_wf b1" using R by simp
  have room: "end' b1 + length src \<le> buf b1 + capacity b1" using R l by simp
  from store_advance [OF wf1 room l] b1 show ?thesis by (auto simp: rbind_def)
qed

lemma expbuf_push_num_Inr:
  assumes wf: "expbuf_wf b" and ok: "alloc_ok lc" and r: "expbuf_push_num lc b v = Inr b'"
  shows "expbuf_wf b' \<and> live b' = live b @ size_t_bytes v \<and>
         start b' - buf b' = start b - buf b \<and>
         end' b' - buf b' = (end' b - buf b) + 8 \<and> capacity b \<le> capacity b'"
  using reserve_store_Inr [OF wf ok length_size_t_bytes [symmetric] r [unfolded expbuf_push_num_def]]
  by simp

lemma expbuf_push_num_succeeds:
  assumes wf: "expbuf_wf b" and ro: "roomy lc lim" and cap: "capacity b \<le> lim"
    and need: "2 * ((end' b - buf b) + 8) \<le> lim"
  shows "\<exists>b'. expbuf_push_num lc b v = Inr b' \<and> capacity b' \<le> lim"
  unfolding expbuf_push_num_def
  using wf ro cap need length_size_t_bytes [symmetric] by (rule reserve_store_succeeds)

lemma expbuf_push_str_Inr:
  assumes wf: "expbuf_wf b" and ok: "alloc_ok lc" and r: "expbuf_push_str lc b s = Inr b'"
  shows "expbuf_wf b' \<and> live b' = live b @ c_str s @ [CHR 0x00] \<and>
         start b' - buf b' = start b - buf b \<and>
         end' b' - buf b' = (end' b - buf b) + (length (c_str s) + 1) \<and>
         capacity b \<le> capacity b'"
proof -
  have l: "length (c_str s) + 1 = length (c_str s @ [CHR 0x00])" by simp
  show ?thesis
    using reserve_store_Inr [OF wf ok l r [unfolded expbuf_push_str_def Let_def]] by simp
qed

lemma expbuf_push_str_succeeds:
  assumes wf: "expbuf_wf b" and ro: "roomy lc lim" and cap: "capacity b \<le> lim"
    and need: "2 * ((end' b - buf b) + (length (c_str s) + 1)) \<le> lim"
  shows "\<exists>b'. expbuf_push_str lc b s = Inr b' \<and> capacity b' \<le> lim"
proof -
  have l: "length (c_str s) + 1 = length (c_str s @ [CHR 0x00])" by simp
  show ?thesis
    unfolding expbuf_push_str_def Let_def
    using wf ro cap need l by (rule reserve_store_succeeds)
qed

lemma expbuf_push_bytes_Inr:
  assumes wf: "expbuf_wf b" and ok: "alloc_ok lc" and r: "expbuf_push_bytes lc b p l = Inr b'"
  shows "expbuf_wf b' \<and> live b' = live b @ size_t_bytes l @ take (unat l) p \<and>
         start b' - buf b' = start b - buf b \<and>
         end' b' - buf b' = (end' b - buf b) + (8 + unat l) \<and>
         capacity b \<le> capacity b' \<and> unat l \<le> length p"
proof -
  from r obtain b1 where b1: "expbuf_push_num lc b l = Inr b1"
    and r1: "rbind (expbuf_reserve lc b1 (unat l)) (\<lambda>(released, b).
       if length p < unat l then Inl OutOfBounds
       else rbind (store b (end' b) (take (unat l) p))
              (\<lambda>b. Inr (b\<lparr>end' := ptr_add (end' b) (unat l)\<rparr>))) = Inr b'"
    by (auto simp: expbuf_push_bytes_def rbind_def split: sum.splits)
  have le: "unat l \<le> length p"
    using r1 by (auto simp: rbind_def split: sum.splits if_splits)
  then have r2: "rbind (expbuf_reserve lc b1 (unat l)) (\<lambda>(released, b).
       rbind (store b (end' b) (take (unat l) p))
              (\<lambda>b. Inr (b\<lparr>end' := ptr_add (end' b) (unat l)\<rparr>))) = Inr b'"
    using r1 by simp
  note N = expbuf_push_num_Inr [OF wf ok b1]
  have wf1: "expbuf_wf b1" using N by simp
  have l: "unat l = length (take (unat l) p)" using le by simp
  note B = reserve_store_Inr [OF wf1 ok l r2]
  show ?thesis using N B le by simp
qed

lemma expbuf_push_bytes_succeeds:
  assumes wf: "expbuf_wf b" and ro: "roomy lc lim" and cap: "capacity b \<le> lim"
    and need: "2 * ((end' b - buf b) + (8 + unat l)) \<le> lim" and le: "unat l \<le> length p"
  shows "\<exists>b'. expbuf_push_bytes lc b p l = Inr b' \<and> capacity b' \<le> lim"
proof -
  have n8: "2 * ((end' b - buf b) + 8) \<le> lim" using need by simp
  from expbuf_push_num_succeeds [OF wf ro cap n8]
  obtain b1 where b1: "expbuf_push_num lc b l = Inr b1" "capacity b1 \<le> lim" by blast
  note N = expbuf_push_num_Inr [OF wf roomyD(1) [OF ro] b1(1)]
  have wf1: "expbuf_wf b1" using N by simp
  have need1: "2 * ((end' b1 - buf b1) + unat l) \<le> lim" using N need by simp
  have l: "unat l = length (take (unat l) p)" using le by simp
  from reserve_store_succeeds [OF wf1 ro b1(2) need1 l]
  show ?thesis using b1(1) le by (simp add: expbuf_push_bytes_def rbind_def)
qed

lemma store_advance_split:
  assumes wf: "expbuf_wf b" and room: "end' b + length src \<le> buf b + capacity b"
    and l: "l = length src"
  obtains bs where "store b (end' b) src = Inr bs"
    "expbuf_wf (bs\<lparr>end' := ptr_add (end' bs) l\<rparr>)"
    "live (bs\<lparr>end' := ptr_add (end' bs) l\<rparr>) = live b @ src"
    "capacity bs = capacity b" "end' bs = end' b" "buf bs = buf b" "start bs = start b"
    "ptr_add (end' bs) l = end' b + l"
proof -
  from store_advance [OF wf room l]
  obtain b2 where b2: "rbind (store b (end' b) src) (\<lambda>b. Inr (b\<lparr>end' := ptr_add (end' b) l\<rparr>)) = Inr b2"
    "expbuf_wf b2" "live b2 = live b @ src" "buf b2 = buf b" "start b2 = start b"
    "end' b2 = end' b + l" "capacity b2 = capacity b" by blast
  from b2(1) obtain bs where bs: "store b (end' b) src = Inr bs"
    "b2 = bs\<lparr>end' := ptr_add (end' bs) l\<rparr>"
    by (auto simp: rbind_def split: sum.splits)
  have e: "end' bs = end' b"
    using bs(1) by (auto simp: store_def Let_def split: if_splits)
  show ?thesis
    using that [OF bs(1)] b2 bs(2) e by simp
qed

lemma expbuf_read_frame:
  assumes wf: "expbuf_wf b" and ro: "roomy lc lim" and cap: "capacity b \<le> lim"
    and inp: "input = size_t_bytes n @ payload @ rest" and len: "length payload = unat n"
    and need: "2 * ((end' b - buf b) + unat n) \<le> lim"
  shows "\<exists>b'. expbuf_read lc b input = Inr (0, b', rest) \<and> expbuf_wf b' \<and>
           live b' = live b @ payload \<and> capacity b' \<le> lim"
proof -
  have t8: "take 8 input = size_t_bytes n" "drop 8 input = payload @ rest"
    using inp by (simp_all add: length_size_t_bytes)
  have l8: "\<not> length input < 8" using inp by (simp add: length_size_t_bytes)
  from expbuf_reserve_succeeds [OF wf ro cap need]
  obtain rel b1 where b1: "expbuf_reserve lc b (unat n) = Inr (rel, b1)" "capacity b1 \<le> lim" by blast
  note R = expbuf_reserve_Inr [OF wf roomyD(1) [OF ro] b1(1)]
  have wf1: "expbuf_wf b1" using R by simp
  have room: "end' b1 + length payload \<le> buf b1 + capacity b1" using R len by simp
  obtain bs where bs: "store b1 (end' b1) payload = Inr bs"
    "expbuf_wf (bs\<lparr>end' := ptr_add (end' bs) (unat n)\<rparr>)"
    "live (bs\<lparr>end' := ptr_add (end' bs) (unat n)\<rparr>) = live b1 @ payload"
    "capacity bs = capacity b1"
    using store_advance_split [OF wf1 room len [symmetric]] by metis
  have "expbuf_read lc b input = Inr (0, bs\<lparr>end' := ptr_add (end' bs) (unat n)\<rparr>, rest)"
    using l8 len by (simp add: expbuf_read_def t8 size_t_value_bytes Let_def b1(1) rbind_def bs(1))
  then show ?thesis
    using bs b1(2) expbuf_reserve_live [OF wf roomyD(1) [OF ro] b1(1)] by simp
qed

lemma frame_wf: "expbuf_wf b \<Longrightarrow> frame b = size_t_bytes (of_nat (length (live b))) @ live b"
proof -
  assume wf: "expbuf_wf b"
  have "load b (start b) (expbuf_size b) = live b" by (simp add: live_def)
  then show ?thesis by (simp add: frame_def length_live [OF wf] expbuf_size_wf [OF wf])
qed

lemma expbuf_shift_num_adv:
  assumes wf: "expbuf_wf b"
  shows "\<exists>n. n \<le> end' b - start b \<and> snd (expbuf_shift_num b) = b\<lparr>start := start b + n\<rparr>"
proof (cases "expbuf_size b < 8")
  case True
  then have "snd (expbuf_shift_num b) = b\<lparr>start := start b + 0\<rparr>"
    by (simp add: expbuf_shift_num_def)
  then show ?thesis by blast
next
  case False
  then have n: "8 \<le> end' b - start b" by (simp add: expbuf_size_wf [OF wf])
  have "snd (expbuf_shift_num b) = b\<lparr>start := start b + 8\<rparr>"
    using False by (simp add: expbuf_shift_num_def advance_start(1) [OF wf n])
  then show ?thesis using n by blast
qed

lemma length_c_str_less: "CHR 0x00 \<in> set s \<Longrightarrow> length (c_str s) < length s"
  unfolding c_str_def
  by (induction s) auto

lemma expbuf_shift_str_adv:
  assumes wf: "expbuf_wf b"
  shows "\<exists>n. n \<le> end' b - start b \<and> snd (expbuf_shift_str b) = b\<lparr>start := start b + n\<rparr>"
proof (cases "CHR 0x00 \<in> set (live b)")
  case False
  then have "snd (expbuf_shift_str b) = b\<lparr>start := start b + 0\<rparr>"
    by (simp add: expbuf_shift_str_def live_def Let_def)
  then show ?thesis by blast
next
  case True
  let ?k = "length (c_str (live b))"
  have "?k < length (live b)" using True by (rule length_c_str_less)
  then have n: "?k + 1 \<le> end' b - start b" by (simp add: length_live [OF wf])
  then have n': "?k \<le> end' b - start b" by simp
  have p1: "ptr_add (start b) ?k = start b + ?k" by (rule advance_start(1) [OF wf n'])
  have "start b + ?k + 1 < 2 ^ 64" using expbuf_wfD [OF wf] n by arith
  then have p2: "ptr_add (start b + ?k) (Suc 0) = start b + (?k + 1)"
    using ptr_add_small [of "start b + ?k" 1] by simp
  have "snd (expbuf_shift_str b) = b\<lparr>start := start b + (?k + 1)\<rparr>"
    using True by (simp add: expbuf_shift_str_def live_def [symmetric] Let_def p1 p2)
  then show ?thesis using n by blast
qed

lemma expbuf_shift_bytes_adv:
  assumes wf: "expbuf_wf b"
  shows "\<exists>n. n \<le> end' b - start b \<and> snd (expbuf_shift_bytes b) = b\<lparr>start := start b + n\<rparr>"
proof -
  obtain r b1 where s1: "expbuf_shift_num b = (r, b1)" by (cases "expbuf_shift_num b")
  from expbuf_shift_num_adv [OF wf] s1
  obtain n where n: "n \<le> end' b - start b" "b1 = b\<lparr>start := start b + n\<rparr>" by auto
  have wf1: "expbuf_wf b1" unfolding n(2) by (rule advance_start(2) [OF wf n(1)])
  show ?thesis
  proof (cases r)
    case None
    then have "snd (expbuf_shift_bytes b) = b1" by (simp add: expbuf_shift_bytes_def s1)
    then show ?thesis using n by blast
  next
    case (Some l)
    show ?thesis
    proof (cases "expbuf_size b1 < unat l")
      case True
      then have "snd (expbuf_shift_bytes b) = b1" by (simp add: expbuf_shift_bytes_def s1 Some)
      then show ?thesis using n by blast
    next
      case False
      then have m: "unat l \<le> end' b1 - start b1" by (simp add: expbuf_size_wf [OF wf1])
      have "snd (expbuf_shift_bytes b) = b1\<lparr>start := start b1 + unat l\<rparr>"
        using False by (simp add: expbuf_shift_bytes_def s1 Some advance_start(1) [OF wf1 m])
      then have "snd (expbuf_shift_bytes b) = b\<lparr>start := start b + (n + unat l)\<rparr>"
        by (simp add: n(2) add.assoc)
      moreover have "n + unat l \<le> end' b - start b" using m n by (simp add: n(2))
      ultimately show ?thesis by blast
    qed
  qed
qed

lemma apply_shift_adv:
  assumes wf: "expbuf_wf b" and sh: "is_shift x" and r: "apply_op lc b x = Inr b'"
  shows "\<exists>n. n \<le> end' b - start b \<and> b' = b\<lparr>start := start b + n\<rparr>"
proof (cases x)
  case Shift_num
  then show ?thesis using expbuf_shift_num_adv [OF wf] r by simp
next
  case Shift_str
  then show ?thesis using expbuf_shift_str_adv [OF wf] r by simp
next
  case Shift_bytes
  then show ?thesis using expbuf_shift_bytes_adv [OF wf] r by simp
qed (use sh in simp_all)

lemma apply_push_Inr:
  assumes wf: "expbuf_wf b" and ok: "alloc_ok lc" and pu: "is_push x"
    and r: "apply_op lc b x = Inr b'"
  shows "expbuf_wf b' \<and> start b' - buf b' = start b - buf b \<and>
         end' b - buf b \<le> end' b' - buf b' \<and> (\<exists>new. live b' = live b @ new)"
proof (cases x)
  case (Push_num v)
  then show ?thesis using expbuf_push_num_Inr [OF wf ok, of v b'] r by simp
next
  case (Push_str s)
  then show ?thesis using expbuf_push_str_Inr [OF wf ok, of s b'] r by simp
next
  case (Push_bytes p l)
  then show ?thesis using expbuf_push_bytes_Inr [OF wf ok, of p l b'] r by simp
qed (use pu in simp_all)

lemma apply_op_wf:
  assumes wf: "expbuf_wf b" and ok: "alloc_ok lc" and r: "apply_op lc b x = Inr b'"
  shows "expbuf_wf b'"
proof (cases "is_push x")
  case True
  then show ?thesis using apply_push_Inr [OF wf ok _ r] by simp
next
  case False
  show ?thesis
  proof (cases "is_shift x")
    case True
    from apply_shift_adv [OF wf True r]
    obtain n where "n \<le> end' b - start b" "b' = b\<lparr>start := start b + n\<rparr>" by blast
    then show ?thesis using advance_start(2) [OF wf] by simp
  next
    case nshift: False
    show ?thesis
    proof (cases x)
      case (Reserve extra)
      then obtain rel where "expbuf_reserve lc b (unat extra) = Inr (rel, b')"
        using r by (auto simp: rbind_def split: sum.splits)
      then show ?thesis using expbuf_reserve_Inr [OF wf ok] by simp
    next
      case Dispose
      then have "b' = expbuf_zero" using r by (simp add: expbuf_dispose_def Let_def)
      then show ?thesis by (simp add: expbuf_wf_zero)
    qed (use False nshift in simp_all)
  qed
qed

lemma run_ops_wf:
  "expbuf_wf b \<Longrightarrow> alloc_ok lc \<Longrightarrow> run_ops lc b xs = Inr b' \<Longrightarrow> expbuf_wf b'"
proof (induction xs arbitrary: b)
  case Nil
  then show ?case by simp
next
  case (Cons x xs)
  from Cons.prems(3) obtain b1 where b1: "apply_op lc b x = Inr b1" "run_ops lc b1 xs = Inr b'"
    by (auto simp: rbind_def split: sum.splits)
  have "expbuf_wf b1" using Cons.prems(1,2) b1(1) by (rule apply_op_wf)
  then show ?case using Cons.prems(2) b1(2) by (rule Cons.IH)
qed

lemma roomy_sample: "roomy sample_libc (2 ^ 32)"
  unfolding roomy_def using alloc_ok_sample alloc_upto_sample by simp

lemma unat_of_nat_len: "n < 2 ^ 64 \<Longrightarrow> unat (of_nat n :: 64 word) = n"
proof -
  assume n: "n < 2 ^ 64"
  have "unat (of_nat n :: 64 word) = n mod 2 ^ LENGTH(64)" by (rule unat_of_nat)
  also have "\<dots> = n" by (rule mod_less) (use n in simp)
  finally show ?thesis .
qed

lemma push_atom_ok:
  assumes wf: "expbuf_wf b" and ro: "roomy lc lim" and cap: "capacity b \<le> lim"
    and a: "atom_ok a" and need: "2 * ((end' b - buf b) + atom_len a) \<le> lim"
  shows "\<exists>b'. push_atom lc b a = Inr b' \<and> expbuf_wf b' \<and> capacity b' \<le> lim \<and>
           live b' = live b @ atom_bytes a \<and> end' b' - buf b' = (end' b - buf b) + atom_len a"
proof (cases a)
  case (Num v)
  from expbuf_push_num_succeeds [OF wf ro cap, of v] need Num
  obtain b' where b': "expbuf_push_num lc b v = Inr b'" "capacity b' \<le> lim" by auto
  show ?thesis
    using expbuf_push_num_Inr [OF wf roomyD(1) [OF ro] b'(1)] b' Num by simp
next
  case (Str s)
  then have cs: "c_str s = s" using a by (simp add: c_str_nul_free)
  from expbuf_push_str_succeeds [OF wf ro cap, of s] need Str cs
  obtain b' where b': "expbuf_push_str lc b s = Inr b'" "capacity b' \<le> lim" by auto
  show ?thesis
    using expbuf_push_str_Inr [OF wf roomyD(1) [OF ro] b'(1)] b' Str cs by simp
next
  case (Bytes p)
  then have u: "unat (of_nat (length p) :: 64 word) = length p"
    using a by (simp add: unat_of_nat_len)
  from expbuf_push_bytes_succeeds [OF wf ro cap, of "of_nat (length p)" p] need Bytes u
  obtain b' where b': "expbuf_push_bytes lc b p (of_nat (length p)) = Inr b'" "capacity b' \<le> lim"
    by auto
  show ?thesis
    using expbuf_push_bytes_Inr [OF wf roomyD(1) [OF ro] b'(1)] b' Bytes u by simp
qed

lemma push_atoms_ok:
  assumes "expbuf_wf b" and "roomy lc lim" and "capacity b \<le> lim"
    and "\<forall>a\<in>set as. atom_ok a"
    and "2 * ((end' b - buf b) + sum_list (map atom_len as)) \<le> lim"
  shows "\<exists>b'. push_atoms lc b as = Inr b' \<and> expbuf_wf b' \<and>
           live b' = live b @ concat (map atom_bytes as)"
  using assms
proof (induction as arbitrary: b)
  case Nil
  then show ?case by simp
next
  case (Cons a as)
  have "atom_ok a" using Cons.prems(4) by simp
  moreover have "2 * ((end' b - buf b) + atom_len a) \<le> lim" using Cons.prems(5) by simp
  ultimately obtain b1 where b1: "push_atom lc b a = Inr b1" "expbuf_wf b1" "capacity b1 \<le> lim"
    "live b1 = live b @ atom_bytes a" "end' b1 - buf b1 = (end' b - buf b) + atom_len a"
    using push_atom_ok [OF Cons.prems(1-3), of a] by blast
  have "\<exists>b'. push_atoms lc b1 as = Inr b' \<and> expbuf_wf b' \<and>
           live b' = live b1 @ concat (map atom_bytes as)"
  proof (rule Cons.IH [OF b1(2) Cons.prems(2) b1(3)])
    show "\<forall>a\<in>set as. atom_ok a" using Cons.prems(4) by simp
    show "2 * ((end' b1 - buf b1) + sum_list (map atom_len as)) \<le> lim"
      using Cons.prems(5) b1(5) by (simp add: add.assoc)
  qed
  then show ?case using b1(1,4) by (auto simp: rbind_def)
qed

lemma shift_atom_ok:
  assumes wf: "expbuf_wf b" and a: "atom_ok a" and l: "live b = atom_bytes a @ rest"
  shows "\<exists>b'. shift_atom (sort_of a) b = (Some a, b') \<and> expbuf_wf b' \<and> live b' = rest"
proof (cases a)
  case (Num v)
  then have l': "live b = size_t_bytes v @ rest" using l by simp
  show ?thesis using expbuf_shift_num_Some [OF wf l'] Num by simp
next
  case (Str s)
  then have l': "live b = s @ CHR 0x00 # rest" and s: "CHR 0x00 \<notin> set s" using l a by simp_all
  show ?thesis using expbuf_shift_str_Some [OF wf l' s] Str by simp
next
  case (Bytes p)
  then have l': "live b = size_t_bytes (of_nat (length p)) @ p @ rest" using l by simp
  have u: "length p = unat (of_nat (length p) :: 64 word)"
    using a Bytes by (simp add: unat_of_nat_len)
  show ?thesis using expbuf_shift_bytes_Some [OF wf l' u] Bytes by simp
qed

lemma shift_atoms_ok:
  assumes "expbuf_wf b" and "\<forall>a\<in>set as. atom_ok a"
    and "live b = concat (map atom_bytes as) @ rest"
  shows "\<exists>b'. shift_atoms (map sort_of as) b = (Some as, b') \<and> expbuf_wf b' \<and> live b' = rest"
  using assms
proof (induction as arbitrary: b)
  case Nil
  then show ?case by simp
next
  case (Cons a as)
  have "atom_ok a" using Cons.prems(2) by simp
  moreover have "live b = atom_bytes a @ (concat (map atom_bytes as) @ rest)"
    using Cons.prems(3) by simp
  ultimately obtain b1 where b1: "shift_atom (sort_of a) b = (Some a, b1)" "expbuf_wf b1"
    "live b1 = concat (map atom_bytes as) @ rest"
    using shift_atom_ok [OF Cons.prems(1)] by blast
  have "\<forall>a\<in>set as. atom_ok a" using Cons.prems(2) by simp
  from Cons.IH [OF b1(2) this b1(3)]
  show ?case using b1(1) by auto
qed

text \<open>
  Claim C7.  Let the allocator be sound and serve every request up to \<open>lim\<close> bytes, and
  let the atoms be numbers, strings without NUL and blobs whose length is a \<open>size_t\<close>,
  of at most \<open>lim / 2\<close> bytes together.  Then pushing them into the empty buffer returns,
  shifting atoms of the same sorts in the same order returns the atoms pushed, and the
  buffer then has live size 0.
\<close>

theorem codec_round_trip:
  assumes "roomy lc lim" and "\<forall>a\<in>set as. atom_ok a"
    and "2 * sum_list (map atom_len as) \<le> lim"
  shows "\<exists>b b'. push_atoms lc expbuf_zero as = Inr b \<and>
           shift_atoms (map sort_of as) b = (Some as, b') \<and> expbuf_size b' = 0"
proof -
  have c: "capacity expbuf_zero \<le> lim" by (simp add: expbuf_zero_def)
  have n: "2 * ((end' expbuf_zero - buf expbuf_zero) + sum_list (map atom_len as)) \<le> lim"
    using assms(3) by (simp add: expbuf_zero_def)
  from push_atoms_ok [OF expbuf_wf_zero assms(1) c assms(2) n]
  obtain b where b: "push_atoms lc expbuf_zero as = Inr b" "expbuf_wf b"
    "live b = concat (map atom_bytes as) @ []" by (auto simp: live_zero)
  from shift_atoms_ok [OF b(2) assms(2) b(3)]
  obtain b' where b': "shift_atoms (map sort_of as) b = (Some as, b')" "expbuf_wf b'" "live b' = []"
    by blast
  have "expbuf_size b' = 0"
    using length_live [OF b'(2)] b'(3) by (simp add: expbuf_size_wf [OF b'(2)])
  then show ?thesis using b(1) b'(1) by blast
qed

theorem codec_round_trip_witness:
  "roomy sample_libc (2 ^ 32) \<and>
   (\<exists>b b'. push_atoms sample_libc expbuf_zero [Num 7, Str ''load_key'', Bytes ''xyz''] = Inr b \<and>
      shift_atoms [SNum, SStr, SBytes] b = (Some [Num 7, Str ''load_key'', Bytes ''xyz''], b') \<and>
      expbuf_size b' = 0)"
proof -
  have a: "\<forall>a\<in>set [Num 7, Str ''load_key'', Bytes ''xyz'']. atom_ok a" by simp
  have n: "2 * sum_list (map atom_len [Num 7, Str ''load_key'', Bytes ''xyz'']) \<le> (2::nat) ^ 32"
    by simp
  show ?thesis
    using codec_round_trip [OF roomy_sample a n] roomy_sample by simp
qed


lemma rbind_Inr_eq [simp]: "rbind (Inr x) f = f x"
  by (simp add: rbind_def)

lemma rbind_Inl_eq [simp]: "rbind (Inl e) f = Inl e"
  by (simp add: rbind_def)

lemma snd_dispose [simp]: "snd (expbuf_dispose b) = expbuf_zero"
  by (simp add: expbuf_dispose_def Let_def)

lemma zero_fields [simp]: "end' expbuf_zero = 0" "buf expbuf_zero = 0" "start expbuf_zero = 0"
  "capacity expbuf_zero = 0"
  by (simp_all add: expbuf_zero_def)

lemma daemon_conn_turn_read:
  assumes ro: "roomy (c_lib w) lim"
    and inp: "input = size_t_bytes n @ cmd @ CHR 0x00 # args"
    and n: "unat n = length cmd + 1 + length args" and nul: "CHR 0x00 \<notin> set cmd"
    and small: "2 * unat n \<le> lim"
  obtains b where "expbuf_wf b" "live b = args"
    "daemon_conn_turn w reg input =
      (if cmd = ''priv_enc'' then
         rbind (priv_enc_stub w reg b) (\<lambda>(rc, b).
         if rc \<noteq> 0 then Inr (reg, None) else Inr (reg, Some (frame b)))
       else if cmd = ''priv_dec'' then
         rbind (priv_dec_stub w reg b) (\<lambda>(rc, b).
         if rc \<noteq> 0 then Inr (reg, None) else Inr (reg, Some (frame b)))
       else if cmd = ''sign'' then
         rbind (sign_stub w reg b) (\<lambda>(rc, b).
         if rc \<noteq> 0 then Inr (reg, None) else Inr (reg, Some (frame b)))
       else if cmd = ''load_key'' then
         rbind (load_key_stub w reg b) (\<lambda>(rc, reg, b).
         if rc \<noteq> 0 then Inr (reg, None) else Inr (reg, Some (frame b)))
       else Inr (reg, None))"
proof -
  have inp': "input = size_t_bytes n @ (cmd @ CHR 0x00 # args) @ []" using inp by simp
  have len: "length (cmd @ CHR 0x00 # args) = unat n" using n by simp
  have c: "capacity expbuf_zero \<le> lim" by simp
  have need: "2 * ((end' expbuf_zero - buf expbuf_zero) + unat n) \<le> lim" using small by simp
  from expbuf_read_frame [OF expbuf_wf_zero ro c inp' len need]
  obtain b0 where b0: "expbuf_read (c_lib w) expbuf_zero input = Inr (0, b0, [])" "expbuf_wf b0"
    "live b0 = cmd @ CHR 0x00 # args" by (auto simp: live_zero)
  note S = expbuf_shift_str_Some [OF b0(2,3) nul]
  show ?thesis
    using that [OF S(2,3)] by (simp add: daemon_conn_turn_def b0(1) S(1))
qed

lemma priv_encdec_stub_parse:
  assumes wf: "expbuf_wf b"
    and l: "live b = size_t_bytes flen @ from @ size_t_bytes key_index @ size_t_bytes padding"
    and fl: "length from = unat flen"
  shows "priv_encdec_stub w name func reg b =
     rbind (daemon_get_rsa reg key_index) (\<lambda>rsa.
     if rsa = 0 then Inr (-1, b\<lparr>start := start b + (8 + unat flen) + 8 + 8\<rparr>)
     else
       case RSA_private_encrypt w (ucast flen) from rsa (ucast padding) of (ret, out) \<Rightarrow>
       if 4096 < length out then Inl OutOfBounds
       else
         rbind (expbuf_push_num (c_lib w) expbuf_zero (scast ret)) (\<lambda>b.
         rbind (expbuf_push_bytes (c_lib w) b (out @ map (uninit (c_lib w)) [length out..<4096])
                  (if ret = 1 then flen else 0)) (\<lambda>b.
         Inr (0, b))))"
proof -
  have l1: "live b = size_t_bytes flen @ from @ (size_t_bytes key_index @ size_t_bytes padding)"
    using l by simp
  note B = expbuf_shift_bytes_Some [OF wf l1 fl]
  note K = expbuf_shift_num_Some [OF B(2,3)]
  have l3: "live (b\<lparr>start := start b + (8 + unat flen), start := start b + (8 + unat flen) + 8\<rparr>)
      = size_t_bytes padding @ []" using K(3) by simp
  note P = expbuf_shift_num_Some [OF _ l3]
  have p1: "expbuf_shift_num (b\<lparr>start := start b + (8 + unat flen) + 8\<rparr>)
      = (Some padding, b\<lparr>start := start b + (8 + unat flen) + 8 + 8\<rparr>)"
    using P(1) K(2) by simp
  show ?thesis
  proof (cases "daemon_get_rsa reg key_index")
    case (Inl f)
    then show ?thesis using B(1) K(1) p1 by (simp add: priv_encdec_stub_def)
  next
    case (Inr rsa)
    obtain ret out where "RSA_private_encrypt w (ucast flen) from rsa (ucast padding) = (ret, out)"
      by fastforce
    then show ?thesis using B(1) K(1) p1 Inr by (simp add: priv_encdec_stub_def Let_def)
  qed
qed

lemma priv_encdec_stub_reply:
  assumes wf: "expbuf_wf b" and ro: "roomy (c_lib w) lim"
    and l: "live b = size_t_bytes flen @ from @ size_t_bytes key_index @ size_t_bytes padding"
    and fl: "length from = unat flen"
    and key: "daemon_get_rsa reg key_index = Inr rsa" "rsa \<noteq> 0"
    and prim: "RSA_private_encrypt w (ucast flen) from rsa (ucast padding) = (ret, out)"
    and out: "length out \<le> 4096"
    and tl: "tolen = (if ret = 1 then flen else 0)" "unat tolen \<le> 4096"
    and lim: "2 * (16 + unat tolen) \<le> lim"
  shows "\<exists>b'. priv_encdec_stub w name func reg b = Inr (0, b') \<and> expbuf_wf b' \<and>
          live b' = size_t_bytes (scast ret) @ size_t_bytes tolen @
                    take (unat tolen) (out @ map (uninit (c_lib w)) [length out..<4096])"
proof -
  let ?to = "out @ map (uninit (c_lib w)) [length out..<4096]"
  have c: "capacity expbuf_zero \<le> lim" by simp
  have n8: "2 * ((end' expbuf_zero - buf expbuf_zero) + 8) \<le> lim" using lim by simp
  from expbuf_push_num_succeeds [OF expbuf_wf_zero ro c n8]
  obtain b1 where b1: "expbuf_push_num (c_lib w) expbuf_zero (scast ret) = Inr b1" "capacity b1 \<le> lim"
    by blast
  note N = expbuf_push_num_Inr [OF expbuf_wf_zero roomyD(1) [OF ro] b1(1)]
  have wf1: "expbuf_wf b1" using N by simp
  have need: "2 * ((end' b1 - buf b1) + (8 + unat tolen)) \<le> lim" using N lim by simp
  have tolen: "unat tolen \<le> length ?to" using tl(2) out by simp
  from expbuf_push_bytes_succeeds [OF wf1 ro b1(2) need tolen]
  obtain b2 where b2: "expbuf_push_bytes (c_lib w) b1 ?to tolen = Inr b2" by blast
  note B = expbuf_push_bytes_Inr [OF wf1 roomyD(1) [OF ro] b2]
  have "priv_encdec_stub w name func reg b = Inr (0, b2)"
    using key prim out b1(1) b2 tl(1)
    by (simp add: priv_encdec_stub_parse [OF wf l fl])
  then show ?thesis using B N by (simp add: live_zero)
qed

lemma priv_encdec_stub_oob:
  assumes wf: "expbuf_wf b"
    and l: "live b = size_t_bytes flen @ from @ size_t_bytes key_index @ size_t_bytes padding"
    and fl: "length from = unat flen"
    and key: "daemon_get_rsa reg key_index = Inl OutOfBounds"
  shows "priv_encdec_stub w name func reg b = Inl OutOfBounds"
  using key by (simp add: priv_encdec_stub_parse [OF wf l fl])

lemma roomy_sample_world: "roomy (c_lib sample_world) (2 ^ 32)"
  using roomy_sample by (simp add: sample_world_def)

lemma sample_priv_read:
  assumes cmd: "cmd = ''priv_enc'' \<or> cmd = ''priv_dec''"
  obtains b where "expbuf_wf b"
    "live b = size_t_bytes 256 @ replicate 256 (CHR ''c'') @ size_t_bytes key_index @ size_t_bytes 1"
    "daemon_conn_turn sample_world reg (priv_request cmd (replicate 256 (CHR ''c'')) key_index 1) =
       rbind (priv_encdec_stub sample_world (cmd @ ''_stub'')
                (if cmd = ''priv_enc'' then RSA_private_encrypt sample_world
                 else RSA_private_decrypt sample_world) reg b)
         (\<lambda>(rc, b). if rc \<noteq> 0 then Inr (reg, None) else Inr (reg, Some (frame b)))"
proof -
  let ?args = "size_t_bytes 256 @ replicate 256 (CHR ''c'') @ size_t_bytes key_index @ size_t_bytes 1"
  have len: "length cmd = 8" and nul: "CHR 0x00 \<notin> set cmd" using cmd by auto
  have inp: "priv_request cmd (replicate 256 (CHR ''c'')) key_index 1
      = size_t_bytes 289 @ cmd @ CHR 0x00 # ?args"
    by (simp add: priv_request_def len)
  have n: "unat (289 :: 64 word) = length cmd + 1 + length ?args"
    by (simp add: len length_size_t_bytes)
  have small: "2 * unat (289 :: 64 word) \<le> (2::nat) ^ 32" by simp
  from daemon_conn_turn_read [OF roomy_sample_world inp n nul small, of reg]
  obtain b where b: "expbuf_wf b" "live b = ?args"
    "daemon_conn_turn sample_world reg (priv_request cmd (replicate 256 (CHR ''c'')) key_index 1) =
      (if cmd = ''priv_enc'' then
         rbind (priv_enc_stub sample_world reg b) (\<lambda>(rc, b).
         if rc \<noteq> 0 then Inr (reg, None) else Inr (reg, Some (frame b)))
       else if cmd = ''priv_dec'' then
         rbind (priv_dec_stub sample_world reg b) (\<lambda>(rc, b).
         if rc \<noteq> 0 then Inr (reg, None) else Inr (reg, Some (frame b)))
       else if cmd = ''sign'' then
         rbind (sign_stub sample_world reg b) (\<lambda>(rc, b).
         if rc \<noteq> 0 then Inr (reg, None) else Inr (reg, Some (frame b)))
       else if cmd = ''load_key'' then
         rbind (load_key_stub sample_world reg b) (\<lambda>(rc, reg, b).
         if rc \<noteq> 0 then Inr (reg, None) else Inr (reg, Some (frame b)))
       else Inr (reg, None))"
    by blast
  show ?thesis
    using cmd that [OF b(1,2)] b(3) by (auto simp: priv_enc_stub_def priv_dec_stub_def)
qed

lemma sample_priv_turn:
  assumes cmd: "cmd = ''priv_enc'' \<or> cmd = ''priv_dec''"
  shows "daemon_conn_turn sample_world sample_reg (priv_request cmd (replicate 256 (CHR ''c'')) 0 1) =
     Inr (sample_reg, Some (size_t_bytes 16 @ size_t_bytes 256 @ size_t_bytes 0))"
proof -
  obtain b where b: "expbuf_wf b"
    "live b = size_t_bytes 256 @ replicate 256 (CHR ''c'') @ size_t_bytes 0 @ size_t_bytes 1"
    "daemon_conn_turn sample_world sample_reg (priv_request cmd (replicate 256 (CHR ''c'')) 0 1) =
       rbind (priv_encdec_stub sample_world (cmd @ ''_stub'')
                (if cmd = ''priv_enc'' then RSA_private_encrypt sample_world
                 else RSA_private_decrypt sample_world) sample_reg b)
         (\<lambda>(rc, b). if rc \<noteq> 0 then Inr (sample_reg, None) else Inr (sample_reg, Some (frame b)))"
    using sample_priv_read [OF cmd, of 0 sample_reg] by blast
  have fl: "length (replicate 256 (CHR ''c'')) = unat (256 :: 64 word)" by simp
  have key: "daemon_get_rsa sample_reg 0 = Inr 196608" "(196608 :: nat) \<noteq> 0"
    by (simp_all add: daemon_get_rsa_def sample_reg_def)
  have prim: "RSA_private_encrypt sample_world (ucast (256 :: 64 word)) (replicate 256 (CHR ''c''))
                196608 (ucast (1 :: 64 word)) = (256, replicate 256 (CHR ''E''))"
    by (simp add: sample_world_def)
  have out: "length (replicate 256 (CHR ''E'')) \<le> 4096" by simp
  have tl: "(0 :: 64 word) = (if (256 :: 32 word) = 1 then 256 else 0)" "unat (0 :: 64 word) \<le> 4096"
    by simp_all
  have lim: "2 * (16 + unat (0 :: 64 word)) \<le> (2::nat) ^ 32" by simp
  from priv_encdec_stub_reply [OF b(1) roomy_sample_world b(2) fl key prim out tl lim]
  obtain b' where b': "priv_encdec_stub sample_world (cmd @ ''_stub'')
                (if cmd = ''priv_enc'' then RSA_private_encrypt sample_world
                 else RSA_private_decrypt sample_world) sample_reg b = Inr (0, b')"
    "expbuf_wf b'" "live b' = size_t_bytes (scast (256 :: 32 word)) @ size_t_bytes 0" by auto
  have s: "scast (256 :: 32 word) = (256 :: 64 word)" by simp
  have "frame b' = size_t_bytes 16 @ size_t_bytes 256 @ size_t_bytes 0"
    by (simp add: frame_wf [OF b'(2)] b'(3) s length_size_t_bytes)
  then show ?thesis by (simp add: b(3) b'(1))
qed

text \<open>
  Claim C1 (the code does not do this).  \<open>priv_encdec_stub\<close> never uses its parameter
  \<open>func\<close>: it calls \<open>RSA_private_encrypt\<close>.  So \<open>priv_dec_stub\<close> does on every buffer what
  \<open>priv_enc_stub\<close> does.  In the sample world a \<open>priv_dec\<close> request for 256 bytes of
  ciphertext under a registered key is answered with the return value 256 of the
  private-encrypt primitive; the decrypt primitive would have returned 2.
\<close>

theorem priv_dec_stub_encrypts:
  "priv_dec_stub w reg b = priv_enc_stub w reg b \<and>
   daemon_conn_turn sample_world sample_reg
       (priv_request ''priv_dec'' (replicate 256 (CHR ''c'')) 0 1) =
     Inr (sample_reg, Some (size_t_bytes 16 @ size_t_bytes 256 @ size_t_bytes 0)) \<and>
   RSA_private_decrypt sample_world 256 (replicate 256 (CHR ''c'')) 196608 1 = (2, ''hi'')"
proof -
  have "priv_dec_stub w reg b = priv_enc_stub w reg b"
    by (simp add: priv_dec_stub_def priv_enc_stub_def priv_encdec_stub_def)
  moreover have "RSA_private_decrypt sample_world 256 (replicate 256 (CHR ''c'')) 196608 1 = (2, ''hi'')"
    by (simp add: sample_world_def)
  ultimately show ?thesis using sample_priv_turn [of "''priv_dec''"] by simp
qed

text \<open>
  Claim C2 (the code does not do this).  The response carries \<open>flen\<close> bytes when the
  primitive returns 1 and no byte otherwise.  In the sample world the private-encrypt
  primitive succeeds on a \<open>priv_enc\<close> request and returns 256, having written 256 bytes;
  the response is \<open>ret = 256\<close> with an empty \<open>to\<close>.
\<close>

theorem priv_enc_reply_drops_output:
  "RSA_private_encrypt sample_world 256 (replicate 256 (CHR ''c'')) 196608 1
     = (256, replicate 256 (CHR ''E'')) \<and>
   daemon_conn_turn sample_world sample_reg
       (priv_request ''priv_enc'' (replicate 256 (CHR ''c'')) 0 1) =
     Inr (sample_reg, Some (size_t_bytes 16 @ size_t_bytes 256 @ size_t_bytes 0))"
proof -
  have "RSA_private_encrypt sample_world 256 (replicate 256 (CHR ''c'')) 196608 1
     = (256, replicate 256 (CHR ''E''))"
    by (simp add: sample_world_def)
  then show ?thesis using sample_priv_turn [of "''priv_enc''"] by simp
qed

text \<open>
  Claim C4 (the code does not do this).  \<open>daemon_get_rsa\<close> reads the slot without
  comparing the index with the size of the table: on the empty registry index 0, and on
  a registry of one key index 1, are read outside the table.  A \<open>priv_enc\<close> request with
  handle 1 on the registry of one key ends in that read, not in the branch that reports
  an invalid key index.
\<close>

theorem daemon_get_rsa_reads_outside:
  "daemon_get_rsa daemon_rsa_keys_init 0 = Inl OutOfBounds \<and>
   daemon_get_rsa sample_reg 1 = Inl OutOfBounds \<and>
   daemon_conn_turn sample_world sample_reg
       (priv_request ''priv_enc'' (replicate 256 (CHR ''c'')) 1 1) = Inl OutOfBounds"
proof -
  have k: "daemon_get_rsa sample_reg 1 = Inl OutOfBounds"
    by (simp add: daemon_get_rsa_def sample_reg_def)
  obtain b where b: "expbuf_wf b"
    "live b = size_t_bytes 256 @ replicate 256 (CHR ''c'') @ size_t_bytes 1 @ size_t_bytes 1"
    "daemon_conn_turn sample_world sample_reg (priv_request ''priv_enc'' (replicate 256 (CHR ''c'')) 1 1) =
       rbind (priv_encdec_stub sample_world (''priv_enc'' @ ''_stub'')
                (if ''priv_enc'' = ''priv_enc'' then RSA_private_encrypt sample_world
                 else RSA_private_decrypt sample_world) sample_reg b)
         (\<lambda>(rc, b). if rc \<noteq> 0 then Inr (sample_reg, None) else Inr (sample_reg, Some (frame b)))"
    using sample_priv_read [of "''priv_enc''" 1 sample_reg] by blast
  have fl: "length (replicate 256 (CHR ''c'')) = unat (256 :: 64 word)" by simp
  have "daemon_conn_turn sample_world sample_reg
       (priv_request ''priv_enc'' (replicate 256 (CHR ''c'')) 1 1) = Inl OutOfBounds"
    unfolding b(3) by (simp add: priv_encdec_stub_oob [OF b(1,2) fl k])
  moreover have "daemon_get_rsa daemon_rsa_keys_init 0 = Inl OutOfBounds"
    by (simp add: daemon_get_rsa_def daemon_rsa_keys_init_def)
  ultimately show ?thesis using k by simp
qed


lemma c_str_idem [simp]: "c_str (c_str s) = c_str s"
  by (simp add: c_str_def)







lemma load_key_reply_atoms:
  "concat (map atom_bytes [Num okw, Num ki, Str e, Str n, Str err]) = load_key_reply okw ki e n err"
  by (simp add: load_key_reply_def)






lemma c_str_Nil [simp]: "c_str [] = []"
  by (simp add: c_str_def)





















lemma grow_capacity_numeral:
  "grow_capacity (numeral k) bufp endp extra cap =
     (if ptr_diff (bufp + cap) endp < extra
      then grow_capacity (pred_numeral k) bufp endp extra (cap * 2 mod 2 ^ 64)
      else Some cap)"
  by (simp add: numeral_eq_Suc)

lemma map_const_upt: "map (\<lambda>i. c) [m..<n] = replicate (n - m) c"
  by (simp add: map_replicate_const)

lemma push_num_5:
  assumes "realloc_addr lc 0 4096 = 65536" and "uninit lc = (\<lambda>i. CHR 0xAA)"
  shows "expbuf_push_num lc expbuf_zero 5 = Inr sample_buf"
  using assms
  by (simp add: expbuf_push_num_def expbuf_reserve_def expbuf_zero_def grow_capacity_numeral
      ptr_diff_def ptr_add_def store_def sample_buf_def map_const_upt length_size_t_bytes Let_def
      del: upt_rec_numeral)

lemma zero_size_wrap:
  "expbuf_reserve zero_size_libc sample_buf 18446744073709551608 =
     Inr (None, \<lparr>buf = 65536, start = 65536, end' = 65544, capacity = 0, mem = []\<rparr>)"
  by (simp add: expbuf_reserve_def sample_buf_def grow_capacity_numeral zero_size_libc_def
      ptr_diff_def ptr_add_def Let_def del: upt_rec_numeral)


lemma expbuf_shift_num_exact:
  assumes wf: "expbuf_wf b"
  shows "expbuf_shift_num b =
     (if length (live b) < 8 then (None, b)
      else (Some (size_t_value (take 8 (live b))), b\<lparr>start := start b + 8\<rparr>))"
proof (cases "length (live b) < 8")
  case True
  then show ?thesis
    by (simp add: expbuf_shift_num_def expbuf_size_wf [OF wf] length_live [OF wf])
next
  case False
  then have n: "8 \<le> end' b - start b" by (simp add: length_live [OF wf])
  show ?thesis
    using False n
    by (simp add: expbuf_shift_num_def expbuf_size_wf [OF wf] length_live [OF wf]
        advance_start(1,4) [OF wf n])
qed

lemma expbuf_shift_str_exact:
  assumes wf: "expbuf_wf b"
  shows "expbuf_shift_str b =
     (if CHR 0x00 \<in> set (live b)
      then (Some (c_str (live b)), b\<lparr>start := start b + (length (c_str (live b)) + 1)\<rparr>)
      else (None, b))"
proof (cases "CHR 0x00 \<in> set (live b)")
  case False
  then show ?thesis by (simp add: expbuf_shift_str_def live_def Let_def)
next
  case True
  let ?k = "length (c_str (live b))"
  have "?k < length (live b)" using True by (rule length_c_str_less)
  then have n: "?k + 1 \<le> end' b - start b" by (simp add: length_live [OF wf])
  then have n': "?k \<le> end' b - start b" by simp
  have p1: "ptr_add (start b) ?k = start b + ?k" by (rule advance_start(1) [OF wf n'])
  have "start b + ?k + 1 < 2 ^ 64" using expbuf_wfD [OF wf] n by arith
  then have p2: "ptr_add (start b + ?k) (Suc 0) = start b + (?k + 1)"
    using ptr_add_small [of "start b + ?k" 1] by simp
  show ?thesis
    using True by (simp add: expbuf_shift_str_def live_def [symmetric] Let_def p1 p2)
qed

lemma expbuf_shift_bytes_exact:
  assumes wf: "expbuf_wf b"
  shows "expbuf_shift_bytes b =
     (if length (live b) < 8 then (None, b)
      else if length (live b) - 8 < unat (size_t_value (take 8 (live b)))
      then (None, b\<lparr>start := start b + 8\<rparr>)
      else (Some (take (unat (size_t_value (take 8 (live b)))) (drop 8 (live b)),
                  size_t_value (take 8 (live b))),
            b\<lparr>start := start b + (8 + unat (size_t_value (take 8 (live b))))\<rparr>))"
proof (cases "length (live b) < 8")
  case True
  then show ?thesis by (simp add: expbuf_shift_bytes_def expbuf_shift_num_exact [OF wf])
next
  case False
  let ?l = "size_t_value (take 8 (live b))"
  let ?b1 = "b\<lparr>start := start b + 8\<rparr>"
  have n: "8 \<le> end' b - start b" using False by (simp add: length_live [OF wf])
  have wf1: "expbuf_wf ?b1" by (rule advance_start(2) [OF wf n])
  have l1: "live ?b1 = drop 8 (live b)" by (rule advance_start(3) [OF wf n])
  have sz1: "expbuf_size ?b1 = length (live b) - 8"
    using expbuf_size_wf [OF wf1] length_live [OF wf1] l1 by simp
  have sn: "expbuf_shift_num b = (Some ?l, ?b1)"
    using False by (simp add: expbuf_shift_num_exact [OF wf])
  show ?thesis
  proof (cases "length (live b) - 8 < unat ?l")
    case True
    then show ?thesis using False by (simp add: expbuf_shift_bytes_def sn sz1)
  next
    case short: False
    then have m: "unat ?l \<le> end' ?b1 - start ?b1"
      using length_live [OF wf1] l1 by simp
    have A: "ptr_add (start b + 8) (unat ?l) = start b + (8 + unat ?l)"
      "load ?b1 (start b + 8) (unat ?l) = take (unat ?l) (drop 8 (live b))"
      using advance_start(1,4) [OF wf1 m] by (simp_all add: l1 add.assoc)
    show ?thesis
      using False short by (simp add: expbuf_shift_bytes_def sn sz1 A)
  qed
qed



lemma sample_push_num_5: "expbuf_push_num sample_libc expbuf_zero 5 = Inr sample_buf"
  by (rule push_num_5) (simp_all add: sample_libc_def)

text \<open>
  Claim C8, as amended.  Let \<open>realloc\<close> return no block for a request of size 0, and let
  \<open>b\<close> be a buffer reached from the empty buffer by a sequence of reserve, push, shift
  and dispose operations that all return.  Then \<open>buf \<le> start \<le> end \<le> buf + capacity\<close>,
  and the live payload is the \<open>end - start\<close> bytes of the block from offset \<open>start - buf\<close>
  on.  A push that returns leaves the offset of \<open>start\<close> from \<open>buf\<close> as it is, appends the
  encoding of its argument to the payload and moves the offset of \<open>end\<close> by the length
  of that encoding: 8 for a number, the length of the string and 1 for a string, 8 and
  the count for a blob (\<open>realloc\<close> may move the block, so the pointers are compared by
  their offsets).  A shift leaves \<open>buf\<close>, \<open>end\<close>, \<open>capacity\<close> and the block as they are,
  keeps \<open>start\<close> at most \<open>end\<close>, and drops from the payload the bytes that \<open>start\<close> has
  passed; \<open>start\<close> moves by 8 when \<open>expbuf_shift_num\<close> has eight bytes to read, past the
  first NUL when \<open>expbuf_shift_str\<close> finds one, past the length prefix and, when that
  many bytes follow, past the blob in \<open>expbuf_shift_bytes\<close>, and not at all otherwise.
\<close>

theorem expbuf_offset_invariant:
  assumes "alloc_ok lc" and "run_ops lc expbuf_zero ops = Inr b"
  shows "buf b \<le> start b \<and> start b \<le> end' b \<and> end' b \<le> buf b + capacity b \<and>
         expbuf_size b = end' b - start b \<and>
         live b = take (end' b - start b) (drop (start b - buf b) (mem b)) \<and>
         length (live b) = end' b - start b \<and>
         (\<forall>v b'. expbuf_push_num lc b v = Inr b' \<longrightarrow>
            start b' - buf b' = start b - buf b \<and>
            end' b' - buf b' = (end' b - buf b) + 8 \<and>
            live b' = live b @ size_t_bytes v) \<and>
         (\<forall>s b'. expbuf_push_str lc b s = Inr b' \<longrightarrow>
            start b' - buf b' = start b - buf b \<and>
            end' b' - buf b' = (end' b - buf b) + (length (c_str s) + 1) \<and>
            live b' = live b @ c_str s @ [CHR 0x00]) \<and>
         (\<forall>p l b'. expbuf_push_bytes lc b p l = Inr b' \<longrightarrow>
            start b' - buf b' = start b - buf b \<and>
            end' b' - buf b' = (end' b - buf b) + (8 + unat l) \<and>
            live b' = live b @ size_t_bytes l @ take (unat l) p) \<and>
         (\<forall>x b'. is_shift x \<and> apply_op lc b x = Inr b' \<longrightarrow>
            buf b' = buf b \<and> end' b' = end' b \<and> capacity b' = capacity b \<and> mem b' = mem b \<and>
            start b \<le> start b' \<and> start b' \<le> end' b' \<and>
            live b' = drop (start b' - start b) (live b)) \<and>
         start (snd (expbuf_shift_num b)) = start b + (if length (live b) < 8 then 0 else 8) \<and>
         start (snd (expbuf_shift_str b)) =
           start b + (if CHR 0x00 \<in> set (live b) then length (c_str (live b)) + 1 else 0) \<and>
         start (snd (expbuf_shift_bytes b)) =
           start b + (if length (live b) < 8 then 0
                      else if length (live b) - 8 < unat (size_t_value (take 8 (live b))) then 8
                      else 8 + unat (size_t_value (take 8 (live b))))"
proof -
  have wf: "expbuf_wf b" using expbuf_wf_zero assms by (rule run_ops_wf)
  note W = expbuf_wfD [OF wf]
  have pn: "\<forall>v b'. expbuf_push_num lc b v = Inr b' \<longrightarrow>
            start b' - buf b' = start b - buf b \<and>
            end' b' - buf b' = (end' b - buf b) + 8 \<and>
            live b' = live b @ size_t_bytes v"
    using expbuf_push_num_Inr [OF wf assms(1)] by blast
  have ps: "\<forall>s b'. expbuf_push_str lc b s = Inr b' \<longrightarrow>
            start b' - buf b' = start b - buf b \<and>
            end' b' - buf b' = (end' b - buf b) + (length (c_str s) + 1) \<and>
            live b' = live b @ c_str s @ [CHR 0x00]"
    using expbuf_push_str_Inr [OF wf assms(1)] by blast
  have pb: "\<forall>p l b'. expbuf_push_bytes lc b p l = Inr b' \<longrightarrow>
            start b' - buf b' = start b - buf b \<and>
            end' b' - buf b' = (end' b - buf b) + (8 + unat l) \<and>
            live b' = live b @ size_t_bytes l @ take (unat l) p"
    using expbuf_push_bytes_Inr [OF wf assms(1)] by blast
  have shift: "\<forall>x b'. is_shift x \<and> apply_op lc b x = Inr b' \<longrightarrow>
            buf b' = buf b \<and> end' b' = end' b \<and> capacity b' = capacity b \<and> mem b' = mem b \<and>
            start b \<le> start b' \<and> start b' \<le> end' b' \<and>
            live b' = drop (start b' - start b) (live b)"
  proof (intro allI impI)
    fix x b'
    assume a: "is_shift x \<and> apply_op lc b x = Inr b'"
    from apply_shift_adv [OF wf] a
    obtain n where n: "n \<le> end' b - start b" "b' = b\<lparr>start := start b + n\<rparr>" by blast
    have "live b' = drop n (live b)" unfolding n(2) by (rule advance_start(3) [OF wf n(1)])
    then show "buf b' = buf b \<and> end' b' = end' b \<and> capacity b' = capacity b \<and> mem b' = mem b \<and>
            start b \<le> start b' \<and> start b' \<le> end' b' \<and>
            live b' = drop (start b' - start b) (live b)"
      using n W by auto
  qed
  have sn: "start (snd (expbuf_shift_num b)) = start b + (if length (live b) < 8 then 0 else 8)"
    by (simp add: expbuf_shift_num_exact [OF wf])
  have ss: "start (snd (expbuf_shift_str b)) =
           start b + (if CHR 0x00 \<in> set (live b) then length (c_str (live b)) + 1 else 0)"
    by (simp add: expbuf_shift_str_exact [OF wf])
  have sb: "start (snd (expbuf_shift_bytes b)) =
           start b + (if length (live b) < 8 then 0
                      else if length (live b) - 8 < unat (size_t_value (take 8 (live b))) then 8
                      else 8 + unat (size_t_value (take 8 (live b))))"
    by (simp add: expbuf_shift_bytes_exact [OF wf])
  show ?thesis
    using W(1-3) expbuf_size_wf [OF wf] live_wf [OF wf] length_live [OF wf] pn ps pb shift sn ss sb
    by (intro conjI) assumption+
qed

theorem expbuf_offset_invariant_witness:
  "alloc_ok sample_libc \<and>
   run_ops sample_libc expbuf_zero [Push_num 5] = Inr sample_buf \<and>
   buf sample_buf \<le> start sample_buf \<and> start sample_buf \<le> end' sample_buf \<and>
   end' sample_buf \<le> buf sample_buf + capacity sample_buf \<and>
   (\<exists>b'. expbuf_push_num sample_libc sample_buf 7 = Inr b' \<and>
         end' b' - buf b' = (end' sample_buf - buf sample_buf) + 8 \<and>
         live b' = live sample_buf @ size_t_bytes 7) \<and>
   start (snd (expbuf_shift_num sample_buf)) = start sample_buf + 8"
proof -
  have r: "run_ops sample_libc expbuf_zero [Push_num 5] = Inr sample_buf"
    by (simp add: sample_push_num_5 rbind_def)
  note T = expbuf_offset_invariant [OF alloc_ok_sample r]
  have "2 * ((end' sample_buf - buf sample_buf) + 8) \<le> (2::nat) ^ 32"
    by (simp add: sample_buf_def)
  moreover have "capacity sample_buf \<le> 2 ^ 32" by (simp add: sample_buf_def)
  ultimately obtain b' where b': "expbuf_push_num sample_libc sample_buf 7 = Inr b'"
    using expbuf_push_num_succeeds [OF sample_buf_wf roomy_sample, of 7] by blast
  note T1 = T [THEN conjunct1] and R1 = T [THEN conjunct2]
  note T2 = R1 [THEN conjunct1] and R2 = R1 [THEN conjunct2]
  note T3 = R2 [THEN conjunct1] and R3 = R2 [THEN conjunct2]
  note R6 = R3 [THEN conjunct2, THEN conjunct2, THEN conjunct2]
  note T7 = R6 [THEN conjunct1, rule_format, OF b']
  note R10 = R6 [THEN conjunct2, THEN conjunct2, THEN conjunct2, THEN conjunct2]
  note T11 = R10 [THEN conjunct1]
  have p: "\<exists>b'. expbuf_push_num sample_libc sample_buf 7 = Inr b' \<and>
         end' b' - buf b' = (end' sample_buf - buf sample_buf) + 8 \<and>
         live b' = live sample_buf @ size_t_bytes 7"
    using T7 b' by (intro exI [of _ b']) simp
  have s: "start (snd (expbuf_shift_num sample_buf)) = start sample_buf + 8"
    using T11 by (simp add: sample_buf_live length_size_t_bytes)
  show ?thesis using alloc_ok_sample r T1 T2 T3 p s by (intro conjI) assumption+
qed

text \<open>
  Against claim C8 as it stands: with a \<open>realloc\<close> that returns a block for a request
  of size 0, \<open>expbuf_push_num\<close> of 5 and then \<open>expbuf_reserve\<close> of \<open>2 ^ 64 - 8\<close> bytes
  return; the doubling of \<open>capacity\<close> has wrapped to 0, where the loop exits because
  \<open>buf + capacity - end\<close> wraps as well, and \<open>end\<close> lies above \<open>buf + capacity\<close>.
\<close>

theorem expbuf_reserve_wraps_capacity:
  "run_ops zero_size_libc expbuf_zero [Push_num 5, Reserve 18446744073709551608] =
     Inr \<lparr>buf = 65536, start = 65536, end' = 65544, capacity = 0, mem = []\<rparr> \<and>
   \<not> end' \<lparr>buf = 65536, start = 65536, end' = 65544, capacity = 0, mem = []\<rparr>
       \<le> buf \<lparr>buf = 65536, start = 65536, end' = 65544, capacity = 0, mem = []\<rparr>
         + capacity \<lparr>buf = 65536, start = 65536, end' = 65544, capacity = 0, mem = []\<rparr>"
proof -
  have "expbuf_push_num zero_size_libc expbuf_zero 5 = Inr sample_buf"
    by (rule push_num_5) (simp_all add: zero_size_libc_def)
  moreover have "unat (18446744073709551608 :: 64 word) = 18446744073709551608" by simp
  ultimately show ?thesis by (simp add: rbind_def zero_size_wrap)
qed




lemma sample_strings [simp]:
  "c_str ''No such file or directory'' = ''No such file or directory''"
  "c_str ''010001'' = ''010001''" "c_str ''C0FFEE'' = ''C0FFEE''"
  "snprintf_s 256 ''No such file or directory'' = ''No such file or directory''"
  "snprintf_s 256 ''SSL_CTX_use_PrivateKey failed'' = ''SSL_CTX_use_PrivateKey failed''"
  by (simp_all add: c_str_def snprintf_s_def)

lemma sample_world_fields [simp]:
  "c_lib sample_world = sample_libc" "ERRBUF_SIZE sample_world = 256" "connects sample_world"
  "malloc_addr sample_world n = 131072"
  "fopen sample_world ''/etc/key.pem'' = Inr ''PEM''"
  "fopen sample_world ''/no/such/file'' = Inl 2"
  "strerror_r sample_world e 256 = ''No such file or directory''"
  "PEM_read_RSAPrivateKey sample_world ''PEM'' = 196608"
  "BN_bn2hex_e sample_world rsa = Some ''010001''"
  "BN_bn2hex_n sample_world rsa = Some ''C0FFEE''"
  "BN_hex2bn sample_world s = length s"
  "SSL_CTX_use_PrivateKey sample_world ctx pk = (if ctx = 1 then 1 else 0)"
  by (simp_all add: sample_world_def)








end
